theory Spec2Isabelle
  imports Main
begin

section \<open>Text: Python \<open>str\<close> over the code points 0..255\<close>

text \<open>
  A Python string is modelled as a \<^typ>\<open>string\<close>; each \<^typ>\<open>char\<close> stands for the code
  point with the same number (0..255).  The character classes below are the ones
  Python's \<open>str\<close> methods and the \<open>re\<close> module (string patterns, no flags) use on that
  range: \<open>\s\<close> and \<open>str.strip\<close>/\<open>str.split\<close> share one whitespace set, \<open>\d\<close> is
  \<open>0-9\<close>, and \<open>\w\<close> is every alphanumeric code point or the underscore.
\<close>

definition cp :: "char \<Rightarrow> nat" where
  "cp c = of_char c"

definition is_space :: "char \<Rightarrow> bool" where
  "is_space c = ((9 \<le> cp c \<and> cp c \<le> 13) \<or> (28 \<le> cp c \<and> cp c \<le> 32) \<or> cp c = 133 \<or> cp c = 160)"

definition is_digit :: "char \<Rightarrow> bool" where
  "is_digit c = (48 \<le> cp c \<and> cp c \<le> 57)"

definition is_upper :: "char \<Rightarrow> bool" where
  "is_upper c = (65 \<le> cp c \<and> cp c \<le> 90)"

definition is_lower :: "char \<Rightarrow> bool" where
  "is_lower c = (97 \<le> cp c \<and> cp c \<le> 122)"

definition is_alpha :: "char \<Rightarrow> bool" where
  "is_alpha c = (is_upper c \<or> is_lower c)"

definition is_word :: "char \<Rightarrow> bool" where
  "is_word c = (is_digit c \<or> is_alpha c \<or> cp c = 95
     \<or> cp c = 170 \<or> cp c = 178 \<or> cp c = 179 \<or> cp c = 181 \<or> cp c = 185 \<or> cp c = 186
     \<or> (188 \<le> cp c \<and> cp c \<le> 190) \<or> (192 \<le> cp c \<and> cp c \<le> 214)
     \<or> (216 \<le> cp c \<and> cp c \<le> 246) \<or> 248 \<le> cp c)"

text \<open>\<open>s.lstrip()\<close>, \<open>s.rstrip()\<close>, \<open>s.strip()\<close> and \<open>s.rstrip(chars)\<close>.\<close>

definition lstrip :: "string \<Rightarrow> string" where
  "lstrip s = dropWhile is_space s"

definition rstrip :: "string \<Rightarrow> string" where
  "rstrip s = rev (dropWhile is_space (rev s))"

definition strip :: "string \<Rightarrow> string" where
  "strip s = rstrip (lstrip s)"

definition rstrip_chars :: "string \<Rightarrow> string \<Rightarrow> string" where
  "rstrip_chars chars s = rev (dropWhile (\<lambda>c. c \<in> set chars) (rev s))"

text \<open>
  \<open>s.split()\<close>: the maximal runs of non-whitespace characters, in order.  The
  accumulator \<open>w\<close> holds the current run, reversed.
\<close>

fun split_acc :: "string \<Rightarrow> string \<Rightarrow> string list" where
  "split_acc w [] = (if w = [] then [] else [rev w])"
| "split_acc w (c # cs) =
     (if is_space c then (if w = [] then split_acc [] cs else rev w # split_acc [] cs)
      else split_acc (c # w) cs)"

definition split_ws :: "string \<Rightarrow> string list" where
  "split_ws s = split_acc [] s"

text \<open>\<open>sep.join(words)\<close>.\<close>

fun join :: "string \<Rightarrow> string list \<Rightarrow> string" where
  "join sep [] = []"
| "join sep [w] = w"
| "join sep (w # ws) = w @ sep @ join sep ws"

text \<open>
  \<open>s.replace(old, new)\<close>: every non-overlapping occurrence of \<open>old\<close>, found left to
  right, is replaced.  With an empty \<open>old\<close> Python puts \<open>new\<close> before every character
  and at the end.
\<close>

function replace_from :: "string \<Rightarrow> string \<Rightarrow> string \<Rightarrow> string" where
  "replace_from old new [] = []"
| "replace_from old new (c # cs) =
     (if old \<noteq> [] \<and> take (length old) (c # cs) = old
      then new @ replace_from old new (drop (length old) (c # cs))
      else c # replace_from old new cs)"
  by pat_completeness auto
termination
  by (relation "measure (\<lambda>(old, new, s). length s)") auto

definition replace :: "string \<Rightarrow> string \<Rightarrow> string \<Rightarrow> string" where
  "replace old new s =
     (if old = [] then new @ concat (map (\<lambda>c. c # new) s) else replace_from old new s)"

text \<open>\<open>str(n)\<close> for an integer: decimal digits, with a minus sign when negative.\<close>

fun digits_of :: "nat \<Rightarrow> string" where
  "digits_of n =
     (if n < 10 then [char_of (48 + n)] else digits_of (n div 10) @ [char_of (48 + n mod 10)])"

definition str_int :: "int \<Rightarrow> string" where
  "str_int i = (if i < 0 then CHR ''-'' # digits_of (nat (- i)) else digits_of (nat i))"

section \<open>Regular expressions: the fragment of \<open>re\<close> the detector uses\<close>

text \<open>
  Every quantifier in the source's patterns applies to one character class, so the
  syntax has one node for a class with its repetition bounds (\<open>Rep P lo hi\<close> is
  \<open>[P]{lo,hi}\<close>, greedy; \<open>hi = None\<close> is unbounded), the zero-width assertions \<open>\b\<close>,
  \<open>^\<close> and \<open>$\<close>, concatenation, alternation and numbered capture groups.
\<close>

datatype regex =
    Rep "char \<Rightarrow> bool" nat "nat option"
  | WordB
  | Bol
  | Eol
  | Seq regex regex
  | Alt regex regex
  | Grp nat regex

abbreviation one :: "(char \<Rightarrow> bool) \<Rightarrow> regex" where
  "one P \<equiv> Rep P 1 (Some 1)"

abbreviation lit :: "char \<Rightarrow> regex" where
  "lit a \<equiv> Rep (\<lambda>c. c = a) 1 (Some 1)"

abbreviation opt :: "(char \<Rightarrow> bool) \<Rightarrow> regex" where
  "opt P \<equiv> Rep P 0 (Some 1)"

abbreviation star :: "(char \<Rightarrow> bool) \<Rightarrow> regex" where
  "star P \<equiv> Rep P 0 None"

abbreviation plus :: "(char \<Rightarrow> bool) \<Rightarrow> regex" where
  "plus P \<equiv> Rep P 1 None"

abbreviation exactly :: "nat \<Rightarrow> (char \<Rightarrow> bool) \<Rightarrow> regex" where
  "exactly n P \<equiv> Rep P n (Some n)"

abbreviation at_least :: "nat \<Rightarrow> (char \<Rightarrow> bool) \<Rightarrow> regex" where
  "at_least n P \<equiv> Rep P n None"

fun seqs :: "regex list \<Rightarrow> regex" where
  "seqs [] = Rep (\<lambda>c. False) 0 (Some 0)"
| "seqs [r] = r"
| "seqs (r # rs) = Seq r (seqs rs)"

text \<open>
  The matcher is the backtracking search of \<open>re\<close>, written as the list of all ways a
  pattern can match at the cursor, in the order the engine tries them.  The cursor is
  the character before it (\<open>None\<close> at the start of the text) and the text after it.  A
  way to match is the text consumed and the groups captured.
\<close>

type_synonym groups = "(nat \<times> string) list"

definition word_opt :: "char option \<Rightarrow> bool" where
  "word_opt p = (case p of None \<Rightarrow> False | Some c \<Rightarrow> is_word c)"

definition next_char :: "string \<Rightarrow> char option" where
  "next_char s = (case s of [] \<Rightarrow> None | c # _ \<Rightarrow> Some c)"

definition advance :: "char option \<Rightarrow> string \<Rightarrow> char option" where
  "advance p t = (if t = [] then p else Some (last t))"

definition rep_max :: "(char \<Rightarrow> bool) \<Rightarrow> nat option \<Rightarrow> string \<Rightarrow> nat" where
  "rep_max P hi s =
     (let k = length (takeWhile P s) in case hi of None \<Rightarrow> k | Some h \<Rightarrow> min h k)"

fun matches :: "regex \<Rightarrow> char option \<Rightarrow> string \<Rightarrow> (string \<times> groups) list" where
  "matches (Rep P lo hi) p s = map (\<lambda>j. (take j s, [])) (rev [lo ..< Suc (rep_max P hi s)])"
| "matches WordB p s = (if word_opt p \<noteq> word_opt (next_char s) then [([], [])] else [])"
| "matches Bol p s = (if p = None then [([], [])] else [])"
| "matches Eol p s = (if s = [] \<or> s = [CHR 0x0A] then [([], [])] else [])"
| "matches (Seq r1 r2) p s =
     concat (map (\<lambda>(t1, g1).
        map (\<lambda>(t2, g2). (t1 @ t2, g2 @ g1)) (matches r2 (advance p t1) (drop (length t1) s)))
       (matches r1 p s))"
| "matches (Alt r1 r2) p s = matches r1 p s @ matches r2 p s"
| "matches (Grp i r) p s = map (\<lambda>(t, g). (t, (i, t) # g)) (matches r p s)"

text \<open>\<open>m.group(i)\<close> of a match: the text the group captured last.\<close>

definition group :: "groups \<Rightarrow> nat \<Rightarrow> string" where
  "group g i = (case map_of g i of None \<Rightarrow> [] | Some t \<Rightarrow> t)"

text \<open>\<open>pattern.match(s)\<close>: the first way to match at the start of \<open>s\<close>, if any.\<close>

definition re_match :: "regex \<Rightarrow> string \<Rightarrow> (string \<times> groups) option" where
  "re_match r s = (case matches r None s of [] \<Rightarrow> None | m # _ \<Rightarrow> Some m)"

text \<open>
  \<open>pattern.search(s)\<close>: the first way to match at the leftmost position that has
  one; the result also gives the text skipped before the match.
\<close>

fun search_from :: "regex \<Rightarrow> char option \<Rightarrow> string \<Rightarrow> (string \<times> string \<times> groups) option" where
  "search_from r p [] = (case matches r p [] of [] \<Rightarrow> None | (t, g) # _ \<Rightarrow> Some ([], t, g))"
| "search_from r p (c # cs) =
     (case matches r p (c # cs) of
        (t, g) # _ \<Rightarrow> Some ([], t, g)
      | [] \<Rightarrow> map_option (\<lambda>(skipped, t, g). (c # skipped, t, g)) (search_from r (Some c) cs))"

definition re_search :: "regex \<Rightarrow> string \<Rightarrow> (string \<times> string \<times> groups) option" where
  "re_search r s = search_from r None s"

text \<open>
  The two ways a pattern is applied to a text, in words: it \<^emph>\<open>matches at\<close> position \<open>i\<close>
  when the matcher finds a way to match with the cursor behind the first \<open>i\<close>
  characters, and it is \<^emph>\<open>found anywhere\<close> when it matches at some position.
\<close>

definition char_before :: "string \<Rightarrow> nat \<Rightarrow> char option" where
  "char_before s i = (if i = 0 then None else Some (s ! (i - 1)))"

definition matches_at :: "regex \<Rightarrow> string \<Rightarrow> nat \<Rightarrow> bool" where
  "matches_at r s i = (matches r (char_before s i) (drop i s) \<noteq> [])"

definition found_anywhere :: "regex \<Rightarrow> string \<Rightarrow> bool" where
  "found_anywhere r s = (\<exists>i \<le> length s. matches_at r s i)"

text \<open>
  \<open>pattern.finditer(s)\<close> and \<open>pattern.sub(repl, s)\<close> walk the text from left to
  right.  At a position the engine takes the first way to match; after a match of
  non-empty text it goes on behind that text; after an empty match it looks once more
  at the same position for a non-empty one, and then moves on by one character, which
  it keeps.  \<open>hits\<close> are the matches that start at one position, \<open>scan\<close> the walk: its
  counter tells how many characters still belong to the match found last.
\<close>

datatype piece = Keep char | Hit string groups

definition hits :: "regex \<Rightarrow> char option \<Rightarrow> string \<Rightarrow> (string \<times> groups) list" where
  "hits r p s =
     (case matches r p s of
        [] \<Rightarrow> []
      | (t, g) # _ \<Rightarrow>
          if t \<noteq> [] then [(t, g)]
          else (t, g) # (case filter (\<lambda>(t', g'). t' \<noteq> []) (matches r p s) of
                          [] \<Rightarrow> [] | m # _ \<Rightarrow> [m]))"

definition consumed :: "(string \<times> groups) list \<Rightarrow> nat" where
  "consumed hs = (case hs of [] \<Rightarrow> 0 | _ \<Rightarrow> length (fst (last hs)))"

fun scan :: "regex \<Rightarrow> nat \<Rightarrow> char option \<Rightarrow> string \<Rightarrow> piece list" where
  "scan r (Suc k) p [] = []"
| "scan r (Suc k) p (c # cs) = scan r k (Some c) cs"
| "scan r 0 p [] = map (\<lambda>(t, g). Hit t g) (hits r p [])"
| "scan r 0 p (c # cs) =
     map (\<lambda>(t, g). Hit t g) (hits r p (c # cs)) @
     (if consumed (hits r p (c # cs)) = 0 then Keep c # scan r 0 (Some c) cs
      else scan r (consumed (hits r p (c # cs)) - 1) (Some c) cs)"

definition re_finditer :: "regex \<Rightarrow> string \<Rightarrow> (string \<times> groups) list" where
  "re_finditer r s = concat (map (\<lambda>x. case x of Keep c \<Rightarrow> [] | Hit t g \<Rightarrow> [(t, g)]) (scan r 0 None s))"

definition re_sub :: "regex \<Rightarrow> (groups \<Rightarrow> string) \<Rightarrow> string \<Rightarrow> string" where
  "re_sub r repl s = concat (map (\<lambda>x. case x of Keep c \<Rightarrow> [c] | Hit t g \<Rightarrow> repl g) (scan r 0 None s))"

section \<open>The pattern library of \<open>FlixkartPIIDetector.__init__\<close>\<close>

text \<open>\<^verbatim>\<open>\b\d{10}\b\<close>\<close>

definition phone_pattern :: regex where
  "phone_pattern = seqs [WordB, exactly 10 is_digit, WordB]"

text \<open>\<^verbatim>\<open>\b\d{4}[\s-]?\d{4}[\s-]?\d{4}\b|\b\d{12}\b\<close>\<close>

definition space_or_hyphen :: "char \<Rightarrow> bool" where
  "space_or_hyphen c = (is_space c \<or> c = CHR ''-'')"

definition aadhar_pattern :: regex where
  "aadhar_pattern =
     Alt (seqs [WordB, exactly 4 is_digit, opt space_or_hyphen, exactly 4 is_digit,
                opt space_or_hyphen, exactly 4 is_digit, WordB])
         (seqs [WordB, exactly 12 is_digit, WordB])"

text \<open>\<^verbatim>\<open>\b[A-Z]\d{7}\b\<close>\<close>

definition passport_pattern :: regex where
  "passport_pattern = seqs [WordB, one is_upper, exactly 7 is_digit, WordB]"

text \<open>\<^verbatim>\<open>\b[\w.]+@[\w.]+\b|\b\d{10}@[a-zA-Z]+\b\<close>\<close>

definition word_or_dot :: "char \<Rightarrow> bool" where
  "word_or_dot c = (is_word c \<or> c = CHR ''.'')"

definition upi_pattern :: regex where
  "upi_pattern =
     Alt (seqs [WordB, plus word_or_dot, lit (CHR ''@''), plus word_or_dot, WordB])
         (seqs [WordB, exactly 10 is_digit, lit (CHR ''@''), plus is_alpha, WordB])"

text \<open>\<^verbatim>\<open>\b[A-Za-z0-9._%+-]+@[A-Za-z0-9.-]+\.[A-Z|a-z]{2,}\b\<close>\<close>

definition email_local :: "char \<Rightarrow> bool" where
  "email_local c = (is_alpha c \<or> is_digit c \<or> c \<in> set ''._%+-'')"

definition email_domain :: "char \<Rightarrow> bool" where
  "email_domain c = (is_alpha c \<or> is_digit c \<or> c \<in> set ''.-'')"

definition email_tld :: "char \<Rightarrow> bool" where
  "email_tld c = (is_alpha c \<or> c = CHR ''|'')"

definition email_pattern :: regex where
  "email_pattern =
     seqs [WordB, plus email_local, lit (CHR ''@''), plus email_domain, lit (CHR ''.''),
           at_least 2 email_tld, WordB]"

text \<open>The patterns written inline: \<^verbatim>\<open>^[A-Za-z.]+$\<close>, \<^verbatim>\<open>\d\<close> and \<^verbatim>\<open>[^\d]\<close>.\<close>

definition name_word_pattern :: regex where
  "name_word_pattern = seqs [Bol, plus (\<lambda>c. is_alpha c \<or> c = CHR ''.''), Eol]"

definition digit_pattern :: regex where
  "digit_pattern = one is_digit"

definition non_digit_pattern :: regex where
  "non_digit_pattern = one (\<lambda>c. \<not> is_digit c)"

definition name_fields :: "string list" where
  "name_fields = [''name'', ''first_name'', ''last_name'']"

definition combinatorial_fields :: "string list" where
  "combinatorial_fields =
     [''name'', ''first_name'', ''last_name'', ''email'', ''address'', ''device_id'', ''ip_address'']"

section \<open>Decoded values and records\<close>

text \<open>
  The values \<open>json.loads\<close> can put into a record.  The detector looks at a value only
  through its truth value (\<open>not value\<close>), its text (\<open>str(value)\<close>) and, in
  \<open>is_valid_name\<close>, its \<open>strip\<close> method, which only a string has.  The objects that are
  false are listed one by one; \<open>VOther t\<close> is any other object (a float that is not
  zero, a list or a dictionary that is not empty), which is true, with \<open>t\<close> its text.
\<close>

datatype pyval =
    VNone
  | VBool bool
  | VInt int
  | VStr string
  | VFloatZero bool
  | VEmptyList
  | VEmptyDict
  | VOther string

fun truthy :: "pyval \<Rightarrow> bool" where
  "truthy VNone = False"
| "truthy (VBool b) = b"
| "truthy (VInt i) = (i \<noteq> 0)"
| "truthy (VStr s) = (s \<noteq> [])"
| "truthy (VFloatZero neg) = False"
| "truthy VEmptyList = False"
| "truthy VEmptyDict = False"
| "truthy (VOther t) = True"

fun py_str :: "pyval \<Rightarrow> string" where
  "py_str VNone = ''None''"
| "py_str (VBool b) = (if b then ''True'' else ''False'')"
| "py_str (VInt i) = str_int i"
| "py_str (VStr s) = s"
| "py_str (VFloatZero neg) = (if neg then ''-0.0'' else ''0.0'')"
| "py_str VEmptyList = ''[]''"
| "py_str VEmptyDict = ''{}''"
| "py_str (VOther t) = t"

text \<open>
  A dictionary keeps its keys in insertion order and holds a key once: an association
  list, where storing under a key that is present replaces the value in place.
\<close>

type_synonym 'v dict = "(string \<times> 'v) list"

fun dict_set :: "'v dict \<Rightarrow> string \<Rightarrow> 'v \<Rightarrow> 'v dict" where
  "dict_set [] k v = [(k, v)]"
| "dict_set ((k', v') # d) k v = (if k' = k then (k, v) # d else (k', v') # dict_set d k v)"

definition dict_has :: "'v dict \<Rightarrow> string \<Rightarrow> bool" where
  "dict_has d k = (k \<in> set (map fst d))"

definition dict_get :: "'v dict \<Rightarrow> string \<Rightarrow> 'v option" where
  "dict_get d k = map_of d k"

datatype error = AttributeError

text \<open>A \<open>for\<close> loop over a list whose body may raise: the first error ends it.\<close>

fun for_each :: "('s \<Rightarrow> 'a \<Rightarrow> error + 's) \<Rightarrow> 'a list \<Rightarrow> 's \<Rightarrow> error + 's" where
  "for_each body [] st = Inr st"
| "for_each body (x # xs) st =
     (case body st x of Inl e \<Rightarrow> Inl e | Inr st' \<Rightarrow> for_each body xs st')"

section \<open>The structured detector (class \<open>FlixkartPIIDetector\<close>)\<close>

definition is_standalone_pii :: "string \<Rightarrow> pyval \<Rightarrow> bool" where
  "is_standalone_pii field v =
     (if \<not> truthy v \<or> length (strip (py_str v)) < 3 then False
      else let value_str = strip (py_str v) in
        if field = ''phone'' \<or> re_match phone_pattern value_str \<noteq> None then True
        else if field = ''aadhar'' \<or> re_match aadhar_pattern value_str \<noteq> None then True
        else if field = ''passport'' \<or> re_match passport_pattern value_str \<noteq> None then True
        else if field = ''upi_id'' \<or> re_match upi_pattern value_str \<noteq> None then True
        else False)"

text \<open>
  \<open>is_valid_name\<close> calls \<open>name_str.strip()\<close>: on a value that is true and not a
  string this raises \<open>AttributeError\<close>.
\<close>

definition is_valid_name :: "pyval \<Rightarrow> error + bool" where
  "is_valid_name v =
     (if \<not> truthy v then Inr False
      else case v of
        VStr name_str \<Rightarrow>
          if length (strip name_str) < 2 then Inr False
          else let words = split_ws (strip name_str) in
            if length words < 2 then Inr False
            else Inr (list_all (\<lambda>word. re_match name_word_pattern word \<noteq> None) words)
      | _ \<Rightarrow> Inl AttributeError)"

definition is_valid_email :: "pyval \<Rightarrow> bool" where
  "is_valid_email v = (re_match email_pattern (py_str v) \<noteq> None)"

definition is_valid_address :: "pyval \<Rightarrow> bool" where
  "is_valid_address v =
     (if \<not> truthy v \<or> length (py_str v) < 10 then False
      else let addr = py_str v in
        CHR '','' \<in> set addr \<and> (re_search digit_pattern addr \<noteq> None \<or> length (split_ws addr) \<ge> 4))"

text \<open>
  \<open>mask_value\<close>.  A slice never raises: \<open>s[:2]\<close> is \<open>take 2 s\<close>, \<open>s[-2:]\<close> the last two
  characters (all of \<open>s\<close> when it is shorter), and \<open>'X' * n\<close> is empty for \<open>n \<le> 0\<close>.
\<close>

definition last2 :: "string \<Rightarrow> string" where
  "last2 s = drop (length s - 2) s"

definition mask_phone :: "string \<Rightarrow> string" where
  "mask_phone s =
     (if length s = 10 then take 2 s @ ''XXXXXX'' @ last2 s
      else take 2 s @ replicate (length s - 4) (CHR ''X'') @ last2 s)"

definition mask_word :: "string \<Rightarrow> string" where
  "mask_word word =
     (if length word > 1 then hd word # replicate (length word - 1) (CHR ''X'') else ''X'')"

definition mask_value :: "string \<Rightarrow> pyval \<Rightarrow> string" where
  "mask_value field v =
     (let value_str = strip (py_str v) in
      if field = ''phone'' \<or> re_match phone_pattern value_str \<noteq> None then mask_phone value_str
      else if field = ''aadhar'' then
        (let clean_num = re_sub non_digit_pattern (\<lambda>g. []) value_str in
         if length clean_num = 12 then take 2 clean_num @ ''XXXXXXXX'' @ last2 clean_num
         else ''[REDACTED]'')
      else if field \<in> set [''name'', ''first_name'', ''last_name''] then
        join '' '' (map mask_word (split_ws value_str))
      else if field = ''email'' then
        (if CHR ''@'' \<in> set value_str then
           (let user = takeWhile (\<lambda>c. c \<noteq> CHR ''@'') value_str;
                domain = tl (dropWhile (\<lambda>c. c \<noteq> CHR ''@'') value_str)
            in mask_word user @ ''@'' @ domain)
         else ''[REDACTED]'')
      else ''[REDACTED]'')"

text \<open>
  \<open>has_combinatorial_pii\<close>: the loop body appends a category label to
  \<open>pii_fields_present\<close>; a test \<open>field in ['name'] and self.is_valid_name(value)\<close> that
  is false lets the \<open>elif\<close> chain go on.
\<close>

definition name_test :: "string \<Rightarrow> pyval \<Rightarrow> error + bool" where
  "name_test field v = (if field = ''name'' then is_valid_name v else Inr False)"

definition comb_step :: "string list \<Rightarrow> string \<times> pyval \<Rightarrow> error + string list" where
  "comb_step present fv =
     (case fv of (field, v) \<Rightarrow>
      if \<not> truthy v then Inr present
      else (case name_test field v of
        Inl e \<Rightarrow> Inl e
      | Inr is_name \<Rightarrow>
          if is_name then Inr (present @ [''name''])
          else if field \<in> set [''first_name'', ''last_name''] \<and> length (strip (py_str v)) \<ge> 2 then
            (if ''name_parts'' \<notin> set present then Inr (present @ [''name_parts'']) else Inr present)
          else if field = ''email'' \<and> is_valid_email v then Inr (present @ [''email''])
          else if field = ''address'' \<and> is_valid_address v then Inr (present @ [''address''])
          else if field \<in> set [''device_id'', ''ip_address''] \<and> length (strip (py_str v)) \<ge> 5 then
            Inr (present @ [''device_info''])
          else Inr present))"

definition pii_fields_present :: "pyval dict \<Rightarrow> error + string list" where
  "pii_fields_present data = for_each comb_step data []"

definition has_combinatorial_pii :: "pyval dict \<Rightarrow> error + bool" where
  "has_combinatorial_pii data =
     (case pii_fields_present data of Inl e \<Rightarrow> Inl e | Inr present \<Rightarrow> Inr (length present \<ge> 2))"

text \<open>
  \<open>detect_pii_in_record\<close>: the standalone pass (its loop body cannot raise), then the
  combinatorial pass, which writes only under keys not yet in \<open>pii_fields\<close>.
\<close>

definition standalone_step :: "bool \<times> string dict \<Rightarrow> string \<times> pyval \<Rightarrow> bool \<times> string dict" where
  "standalone_step st fv =
     (case (st, fv) of ((has_standalone, pii_fields), (field, v)) \<Rightarrow>
      if is_standalone_pii field v then (True, dict_set pii_fields field (mask_value field v))
      else (has_standalone, pii_fields))"

definition standalone_pass :: "pyval dict \<Rightarrow> bool \<times> string dict" where
  "standalone_pass data = foldl standalone_step (False, []) data"

definition combinatorial_step :: "string dict \<Rightarrow> string \<times> pyval \<Rightarrow> error + string dict" where
  "combinatorial_step pii_fields fv =
     (case fv of (field, v) \<Rightarrow>
      if field \<in> set combinatorial_fields \<and> truthy v \<and> \<not> dict_has pii_fields field then
        (case name_test field v of
           Inl e \<Rightarrow> Inl e
         | Inr is_name \<Rightarrow>
             if is_name then Inr (dict_set pii_fields field (mask_value field v))
             else if field \<in> set [''first_name'', ''last_name''] \<and> length (strip (py_str v)) \<ge> 2 then
               Inr (dict_set pii_fields field (mask_value field v))
             else if field = ''email'' \<and> is_valid_email v then
               Inr (dict_set pii_fields field (mask_value field v))
             else if field = ''address'' \<and> is_valid_address v then
               Inr (dict_set pii_fields field (mask_value field v))
             else if field \<in> set [''device_id'', ''ip_address''] then
               Inr (dict_set pii_fields field ''[REDACTED]'')
             else Inr pii_fields)
      else Inr pii_fields)"

definition combinatorial_pass :: "pyval dict \<Rightarrow> string dict \<Rightarrow> error + string dict" where
  "combinatorial_pass data pii_fields = for_each combinatorial_step data pii_fields"

definition detect_pii_in_record :: "pyval dict \<Rightarrow> error + (bool \<times> string dict)" where
  "detect_pii_in_record data =
     (case standalone_pass data of (has_standalone, pii_fields) \<Rightarrow>
      (case has_combinatorial_pii data of
        Inl e \<Rightarrow> Inl e
      | Inr has_combinatorial \<Rightarrow>
          if has_combinatorial then
            (case combinatorial_pass data pii_fields of
               Inl e \<Rightarrow> Inl e
             | Inr pii_fields' \<Rightarrow> Inr (True, pii_fields'))
          else Inr (has_standalone, pii_fields)))"

text \<open>
  The one way the detector raises: \<open>is_valid_name\<close> on the value of a field \<open>name\<close> that
  is true and not a string.
\<close>

definition raises_on :: "string \<times> pyval \<Rightarrow> bool" where
  "raises_on fv = (case fv of (field, v) \<Rightarrow>
      field = ''name'' \<and> truthy v \<and> (case v of VStr s \<Rightarrow> False | _ \<Rightarrow> True))"

section \<open>A decoded record in \<open>process_csv_file\<close>\<close>

text \<open>
  The part of \<open>process_csv_file\<close> after a successful decode.  The payload written is
  the original text, or \<open>json.dumps\<close> of the redacted copy of the record; the
  serialisation itself is library code and stays symbolic.  An exception raised while
  the record is processed is caught: the row is written with \<open>{}\<close> and no PII flag.
\<close>

datatype payload = Text string | Dumps "pyval dict"

definition redact_step :: "pyval dict \<Rightarrow> string \<times> string \<Rightarrow> pyval dict" where
  "redact_step redacted_data fm =
     (case fm of (field, masked_value) \<Rightarrow>
      if dict_has redacted_data field then dict_set redacted_data field (VStr masked_value)
      else redacted_data)"

definition redact_record :: "pyval dict \<Rightarrow> string dict \<Rightarrow> pyval dict" where
  "redact_record data pii_fields = foldl redact_step data pii_fields"

definition process_decoded :: "string \<Rightarrow> pyval dict \<Rightarrow> payload \<times> bool" where
  "process_decoded data_json data =
     (case detect_pii_in_record data of
        Inl e \<Rightarrow> (Text ''{}'', False)
      | Inr (has_pii, pii_fields) \<Rightarrow>
          if has_pii then (Dumps (redact_record data pii_fields), True)
          else (Text data_json, False))"

section \<open>Malformed-payload repair (\<open>fix_malformed_json\<close>)\<close>

text \<open>
  \<^verbatim>\<open>:\s*([a-zA-Z_][a-zA-Z0-9_]*)\s*([,}])\<close> and \<^verbatim>\<open>:\s*(\d{4}-\d{2}-\d{2})\s*([,}])\<close>,
  each replaced by \<^verbatim>\<open>: "\1"\2\<close>.
\<close>

definition dquote :: char where
  "dquote = CHR 0x22"

definition comma_or_brace :: "char \<Rightarrow> bool" where
  "comma_or_brace c = (c = CHR '','' \<or> c = CHR ''}'')"

definition bare_word_pattern :: regex where
  "bare_word_pattern =
     seqs [lit (CHR '':''), star is_space,
           Grp 1 (Seq (one (\<lambda>c. is_alpha c \<or> c = CHR ''_''))
                      (star (\<lambda>c. is_alpha c \<or> is_digit c \<or> c = CHR ''_''))),
           star is_space, Grp 2 (one comma_or_brace)]"

definition bare_date_pattern :: regex where
  "bare_date_pattern =
     seqs [lit (CHR '':''), star is_space,
           Grp 1 (seqs [exactly 4 is_digit, lit (CHR ''-''), exactly 2 is_digit, lit (CHR ''-''),
                        exactly 2 is_digit]),
           star is_space, Grp 2 (one comma_or_brace)]"

definition quoted :: "groups \<Rightarrow> string" where
  "quoted g = '': '' @ [dquote] @ group g 1 @ [dquote] @ group g 2"

definition fix_malformed_json :: "string \<Rightarrow> string" where
  "fix_malformed_json json_str =
     (let fixed = rstrip_chars [dquote] (strip json_str);
          fixed = re_sub bare_word_pattern quoted fixed;
          fixed = re_sub bare_date_pattern quoted fixed
      in fixed)"

section \<open>Raw-text fallback\<close>

definition detect_pii_in_raw_string :: "string \<Rightarrow> bool" where
  "detect_pii_in_raw_string raw_str =
     (if re_search phone_pattern raw_str \<noteq> None then True
      else if re_search aadhar_pattern raw_str \<noteq> None then True
      else if re_search passport_pattern raw_str \<noteq> None then True
      else if re_search upi_pattern raw_str \<noteq> None then True
      else if re_search email_pattern raw_str \<noteq> None then True
      else False)"

definition redact_phone :: "string \<Rightarrow> string \<times> groups \<Rightarrow> string" where
  "redact_phone redacted m = (case m of (phone, g) \<Rightarrow> replace phone (mask_phone phone) redacted)"

definition redact_aadhar :: "string \<Rightarrow> string \<times> groups \<Rightarrow> string" where
  "redact_aadhar redacted m =
     (case m of (aadhar, g) \<Rightarrow>
      let clean_num = re_sub non_digit_pattern (\<lambda>g. []) aadhar in
      if length clean_num = 12
      then replace aadhar (take 2 clean_num @ ''XXXXXXXX'' @ last2 clean_num) redacted
      else redacted)"

definition redact_pii_in_raw_string :: "string \<Rightarrow> string" where
  "redact_pii_in_raw_string raw_str =
     (let redacted = foldl redact_phone raw_str (re_finditer phone_pattern raw_str);
          redacted = foldl redact_aadhar redacted (re_finditer aadhar_pattern raw_str);
          redacted = re_sub passport_pattern (\<lambda>g. ''[REDACTED]'') redacted;
          redacted = re_sub upi_pattern (\<lambda>g. ''[REDACTED]'') redacted;
          redacted = re_sub email_pattern (\<lambda>g. ''[REDACTED]'') redacted
      in redacted)"

section \<open>The decoder \<open>json.loads\<close>\<close>

text \<open>
  \<open>process_csv_file\<close> decodes a payload with Python's \<open>json.loads\<close>.  The decoder is
  library code; it is modelled on the grammar it accepts: whitespace is space, tab,
  newline and carriage return; an object is \<open>{\<close>, then \<open>}\<close> or members
  \<open>"key" : value\<close> separated by commas; a key must start with a double quote.  A number
  with a fraction or an exponent, \<open>NaN\<close> and \<open>Infinity\<close> become floats and are kept as
  their literal.  A later member replaces an earlier one with the same key.  What the
  text model cannot hold (a \<open>\u\<close> escape above 255, an integer literal beyond Python's
  limit of 4300 digits) is reported as \<open>Unsupported\<close>.  The recursion runs on fuel that
  \<open>json_loads\<close> sets from the length of the text.
\<close>

datatype json =
    JNull
  | JBool bool
  | JInt int
  | JFloat string
  | JStr string
  | JArr "json list"
  | JObj "(string \<times> json) list"

datatype jerror = JSONDecodeError | Unsupported | OutOfFuel

definition json_ws :: "char \<Rightarrow> bool" where
  "json_ws c = (c = CHR '' '' \<or> c = CHR 0x09 \<or> c = CHR 0x0A \<or> c = CHR 0x0D)"

definition skip_ws :: "string \<Rightarrow> string" where
  "skip_ws s = dropWhile json_ws s"

definition hexval :: "char \<Rightarrow> nat option" where
  "hexval c =
     (if is_digit c then Some (cp c - 48)
      else if 65 \<le> cp c \<and> cp c \<le> 70 then Some (cp c - 55)
      else if 97 \<le> cp c \<and> cp c \<le> 102 then Some (cp c - 87)
      else None)"

definition hex4 :: "string \<Rightarrow> nat option" where
  "hex4 xs =
     (if length xs = 4 \<and> list_all (\<lambda>c. hexval c \<noteq> None) xs
      then Some (foldl (\<lambda>n c. 16 * n + the (hexval c)) 0 xs) else None)"

definition unescape :: "char \<Rightarrow> char option" where
  "unescape e =
     (if e = dquote then Some dquote
      else if e = CHR 0x5C then Some (CHR 0x5C)
      else if e = CHR ''/'' then Some (CHR ''/'')
      else if e = CHR ''b'' then Some (CHR 0x08)
      else if e = CHR ''f'' then Some (CHR 0x0C)
      else if e = CHR ''n'' then Some (CHR 0x0A)
      else if e = CHR ''r'' then Some (CHR 0x0D)
      else if e = CHR ''t'' then Some (CHR 0x09)
      else None)"

definition prepend :: "char \<Rightarrow> jerror + (string \<times> string) \<Rightarrow> jerror + (string \<times> string)" where
  "prepend c res = (case res of Inl e \<Rightarrow> Inl e | Inr (t, rest) \<Rightarrow> Inr (c # t, rest))"

text \<open>The text of a string, read from behind its opening quote, and what follows it.\<close>

fun scanstring :: "string \<Rightarrow> jerror + (string \<times> string)" where
  "scanstring [] = Inl JSONDecodeError"
| "scanstring (c # cs) =
     (if c = dquote then Inr ([], cs)
      else if c = CHR 0x5C then
        (case cs of
           [] \<Rightarrow> Inl JSONDecodeError
         | e # cs' \<Rightarrow>
             if e = CHR ''u'' then
               (case hex4 (take 4 cs') of
                  None \<Rightarrow> Inl JSONDecodeError
                | Some n \<Rightarrow> if n < 256 then prepend (char_of n) (scanstring (drop 4 cs'))
                            else Inl Unsupported)
             else (case unescape e of
                     None \<Rightarrow> Inl JSONDecodeError
                   | Some ch \<Rightarrow> prepend ch (scanstring cs')))
      else if cp c < 32 then Inl JSONDecodeError
      else prepend c (scanstring cs))"

definition nat_of_digits :: "string \<Rightarrow> nat" where
  "nat_of_digits ds = foldl (\<lambda>n c. 10 * n + (cp c - 48)) 0 ds"

text \<open>
  A number: \<^verbatim>\<open>(-?(?:0|[1-9]\d*))(\.\d+)?([eE][-+]?\d+)?\<close>.  \<open>int_part\<close>, \<open>frac_part\<close> and
  \<open>exp_part\<close> give the text each group takes from the front of the input.
\<close>

definition int_part :: "string \<Rightarrow> string" where
  "int_part s =
     (let sign = (if take 1 s = ''-'' then ''-'' else []); s1 = drop (length sign) s in
      case s1 of
        [] \<Rightarrow> []
      | d # _ \<Rightarrow> if d = CHR ''0'' then sign @ ''0''
                 else if is_digit d then sign @ takeWhile is_digit s1
                 else [])"

definition frac_part :: "string \<Rightarrow> string" where
  "frac_part s =
     (case s of
        [] \<Rightarrow> []
      | d # ds \<Rightarrow> if d = CHR ''.'' \<and> takeWhile is_digit ds \<noteq> [] then d # takeWhile is_digit ds else [])"

definition exp_part :: "string \<Rightarrow> string" where
  "exp_part s =
     (case s of
        [] \<Rightarrow> []
      | e # es \<Rightarrow>
          if e = CHR ''e'' \<or> e = CHR ''E'' then
            (let sign = (if take 1 es = ''-'' \<or> take 1 es = ''+'' then take 1 es else []);
                 ds = takeWhile is_digit (drop (length sign) es)
             in if ds = [] then [] else e # sign @ ds)
          else [])"

definition parse_number :: "string \<Rightarrow> jerror + (json \<times> string)" where
  "parse_number s =
     (let i = int_part s; r1 = drop (length i) s;
          f = frac_part r1; r2 = drop (length f) r1;
          e = exp_part r2; r3 = drop (length e) r2
      in if i = [] then Inl JSONDecodeError
         else if f \<noteq> [] \<or> e \<noteq> [] then Inr (JFloat (i @ f @ e), r3)
         else if length i > 4300 then Inl Unsupported
         else if take 1 i = ''-'' then Inr (JInt (- int (nat_of_digits (drop 1 i))), r3)
         else Inr (JInt (int (nat_of_digits i)), r3))"

definition parse_literal :: "string \<Rightarrow> jerror + (json \<times> string)" where
  "parse_literal s =
     (if take 4 s = ''null'' then Inr (JNull, drop 4 s)
      else if take 4 s = ''true'' then Inr (JBool True, drop 4 s)
      else if take 5 s = ''false'' then Inr (JBool False, drop 5 s)
      else if take 3 s = ''NaN'' then Inr (JFloat ''NaN'', drop 3 s)
      else if take 8 s = ''Infinity'' then Inr (JFloat ''Infinity'', drop 8 s)
      else if take 9 s = ''-Infinity'' then Inr (JFloat ''-Infinity'', drop 9 s)
      else Inl JSONDecodeError)"

fun parse_value :: "nat \<Rightarrow> string \<Rightarrow> jerror + (json \<times> string)"
  and parse_members :: "nat \<Rightarrow> (string \<times> json) list \<Rightarrow> string \<Rightarrow> jerror + (json \<times> string)"
  and parse_elements :: "nat \<Rightarrow> json list \<Rightarrow> string \<Rightarrow> jerror + (json \<times> string)" where
  "parse_value 0 s = Inl OutOfFuel"
| "parse_value (Suc n) s =
     (case s of
        [] \<Rightarrow> Inl JSONDecodeError
      | c # cs \<Rightarrow>
          if c = dquote then
            (case scanstring cs of Inl e \<Rightarrow> Inl e | Inr (t, rest) \<Rightarrow> Inr (JStr t, rest))
          else if c = CHR ''{'' then
            (case skip_ws cs of
               [] \<Rightarrow> Inl JSONDecodeError
             | d # ds \<Rightarrow> if d = CHR ''}'' then Inr (JObj [], ds)
                         else if d = dquote then parse_members n [] ds
                         else Inl JSONDecodeError)
          else if c = CHR ''['' then
            (case skip_ws cs of
               [] \<Rightarrow> Inl JSONDecodeError
             | d # ds \<Rightarrow> if d = CHR '']'' then Inr (JArr [], ds)
                         else parse_elements n [] (d # ds))
          else if is_digit c \<or> (c = CHR ''-'' \<and> int_part s \<noteq> []) then parse_number s
          else parse_literal s)"
| "parse_members 0 pairs s = Inl OutOfFuel"
| "parse_members (Suc n) pairs s =
     (case scanstring s of
        Inl e \<Rightarrow> Inl e
      | Inr (key, r1) \<Rightarrow>
          (case skip_ws r1 of
             [] \<Rightarrow> Inl JSONDecodeError
           | c # r2 \<Rightarrow>
               if c \<noteq> CHR '':'' then Inl JSONDecodeError
               else (case parse_value n (skip_ws r2) of
                       Inl e \<Rightarrow> Inl e
                     | Inr (v, r3) \<Rightarrow>
                         (case skip_ws r3 of
                            [] \<Rightarrow> Inl JSONDecodeError
                          | d # r4 \<Rightarrow>
                              if d = CHR ''}'' then Inr (JObj (dict_set pairs key v), r4)
                              else if d \<noteq> CHR '','' then Inl JSONDecodeError
                              else (case skip_ws r4 of
                                      [] \<Rightarrow> Inl JSONDecodeError
                                    | q # r5 \<Rightarrow>
                                        if q = dquote then parse_members n (dict_set pairs key v) r5
                                        else Inl JSONDecodeError)))))"
| "parse_elements 0 acc s = Inl OutOfFuel"
| "parse_elements (Suc n) acc s =
     (case parse_value n s of
        Inl e \<Rightarrow> Inl e
      | Inr (v, r1) \<Rightarrow>
          (case skip_ws r1 of
             [] \<Rightarrow> Inl JSONDecodeError
           | d # r2 \<Rightarrow>
               if d = CHR '']'' then Inr (JArr (acc @ [v]), r2)
               else if d \<noteq> CHR '','' then Inl JSONDecodeError
               else parse_elements n (acc @ [v]) (skip_ws r2)))"

definition json_loads :: "string \<Rightarrow> jerror + json" where
  "json_loads s =
     (case parse_value (2 * length s + 2) (skip_ws s) of
        Inl e \<Rightarrow> Inl e
      | Inr (v, rest) \<Rightarrow> if skip_ws rest = [] then Inr v else Inl JSONDecodeError)"

section \<open>Properties decided by evaluation\<close>

text \<open>
  C1.  The combinatorial test is meant to count each signal category once, so a record
  whose only qualifying fields are \<open>device_id\<close> and \<open>ip_address\<close> should hold the single
  category \<open>device_info\<close> and yield false.  The loop guards \<open>name_parts\<close> against a
  second entry but appends \<open>device_info\<close> once per field: on such a record the list
  holds \<open>device_info\<close> twice and the test yields true.  A record with both name parts
  and nothing else is counted once and yields false.
\<close>

theorem C1_device_info_counted_twice:
  "pii_fields_present [(''device_id'', VStr ''abcde''), (''ip_address'', VStr ''10.0.0.1'')]
     = Inr [''device_info'', ''device_info'']
   \<and> has_combinatorial_pii [(''device_id'', VStr ''abcde''), (''ip_address'', VStr ''10.0.0.1'')]
     = Inr True
   \<and> has_combinatorial_pii [(''first_name'', VStr ''Asha''), (''last_name'', VStr ''Rao'')]
     = Inr False"
  by code_simp

text \<open>
  C2.  A 12-digit national id grouped 4-4-4 is recognised by the national-id pattern in
  a field of any name, so the standalone test flags it; the masking transform takes
  its national-id branch only for the field named \<open>aadhar\<close>, and in a field named
  otherwise the value becomes the generic token instead of the shape 2-X8-2.
\<close>

theorem C2_national_id_mask_needs_field_name:
  "re_match aadhar_pattern ''1234 5678 9012'' = Some (''1234 5678 9012'', [])
   \<and> is_standalone_pii ''id_number'' (VStr ''1234 5678 9012'')
   \<and> mask_value ''id_number'' (VStr ''1234 5678 9012'') = ''[REDACTED]''
   \<and> mask_value ''aadhar'' (VStr ''1234 5678 9012'') = ''12XXXXXXXX12''"
  by code_simp

theorem C2_national_id_mask_needs_field_name_witness:
  "mask_value ''id_number'' (VStr ''1234 5678 9012'') \<noteq> ''12XXXXXXXX12''"
  using C2_national_id_mask_needs_field_name by simp

text \<open>
  C3.  The repair of \<^verbatim>\<open>{name: John, date: 2024-01-05}\<close> does not decode: the claim as
  stated fails.
\<close>

theorem C3_repaired_text_does_not_decode:
  "json_loads (fix_malformed_json ''{name: John, date: 2024-01-05}'') = Inl JSONDecodeError"
  by code_simp

text \<open>
  C3, amended.  The repair quotes the two bare values of
  \<^verbatim>\<open>{name: John, date: 2024-01-05}\<close> and leaves the bare keys as they are, giving
  \<^verbatim>\<open>{name: "John", date: "2024-01-05"}\<close>, which the decoder rejects; when the keys of
  the input are already quoted, the repaired text decodes to the mapping of \<open>name\<close> to
  \<open>John\<close> and \<open>date\<close> to \<open>2024-01-05\<close>.
\<close>

theorem C3_repair_quotes_values_only:
  \<open>fix_malformed_json ''{name: John, date: 2024-01-05}'' = ''{name: "John", date: "2024-01-05"}''
   \<and> json_loads ''{name: "John", date: "2024-01-05"}'' = Inl JSONDecodeError
   \<and> fix_malformed_json ''{"name": John, "date": 2024-01-05}''
       = ''{"name": "John", "date": "2024-01-05"}''
   \<and> json_loads (fix_malformed_json ''{"name": John, "date": 2024-01-05}'')
       = Inr (JObj [(''name'', JStr ''John''), (''date'', JStr ''2024-01-05'')])\<close>
  by code_simp

section \<open>Dictionaries and the two passes of the detector\<close>

lemma fst_in_keys: "(a, b) \<in> set d \<Longrightarrow> a \<in> fst ` set d"
  by force

lemma keys_dict_set:
  "map fst (dict_set d k v) = (if k \<in> set (map fst d) then map fst d else map fst d @ [k])"
  by (induction d) (force simp: image_iff)+

lemma distinct_dict_set: "distinct (map fst d) \<Longrightarrow> distinct (map fst (dict_set d k v))"
  by (simp add: keys_dict_set)

lemma map_of_dict_set: "map_of (dict_set d k v) = (map_of d)(k \<mapsto> v)"
  by (induction d) (auto simp: fun_eq_iff)

lemma dict_set_present:
  "distinct (map fst d) \<Longrightarrow> k \<in> set (map fst d) \<Longrightarrow>
   dict_set d k v = map (\<lambda>(f, x). (f, if f = k then v else x)) d"
proof (induction d)
  case Nil
  then show ?case by simp
next
  case (Cons a d)
  obtain f x where a: "a = (f, x)" by (cases a)
  show ?case
  proof (cases "f = k")
    case True
    with Cons.prems a have "k \<notin> fst ` set d" by auto
    then have "map (\<lambda>(f, x). (f, if f = k then v else x)) d = d"
      by (induction d) auto
    with True a show ?thesis by simp
  next
    case False
    with Cons a show ?thesis by auto
  qed
qed

lemma standalone_step_pair:
  "standalone_step (hs, pf) (f, v) =
     (if is_standalone_pii f v then (True, dict_set pf f (mask_value f v)) else (hs, pf))"
  by (simp add: standalone_step_def)

lemma standalone_step_distinct:
  "distinct (map fst (snd st)) \<Longrightarrow> distinct (map fst (snd (standalone_step st fv)))"
  by (cases st; cases fv) (simp add: standalone_step_pair distinct_dict_set)

lemma standalone_fold_distinct:
  "distinct (map fst (snd st)) \<Longrightarrow> distinct (map fst (snd (foldl standalone_step st data)))"
  by (induction data arbitrary: st) (simp_all add: standalone_step_distinct)

lemma standalone_pass_distinct: "distinct (map fst (snd (standalone_pass data)))"
  by (simp add: standalone_pass_def standalone_fold_distinct)

lemma standalone_fold_lookup:
  "distinct (map fst data) \<Longrightarrow> (f, v) \<in> set data \<Longrightarrow> is_standalone_pii f v \<Longrightarrow>
   map_of (snd (foldl standalone_step st data)) f = Some (mask_value f v)"
proof (induction data arbitrary: st rule: rev_induct)
  case Nil
  then show ?case by simp
next
  case (snoc x xs)
  obtain f' v' where x: "x = (f', v')" by (cases x)
  obtain hs pf where st': "foldl standalone_step st xs = (hs, pf)" by (cases "foldl standalone_step st xs")
  show ?case
  proof (cases "(f, v) \<in> set xs")
    case True
    with snoc.prems x have ne: "f' \<noteq> f" by (auto simp: image_iff)
    from snoc.IH[of st] snoc.prems True st' have "map_of pf f = Some (mask_value f v)" by simp
    with ne x st' show ?thesis by (simp add: standalone_step_pair map_of_dict_set)
  next
    case False
    with snoc.prems x have "f' = f" "v' = v" by auto
    with snoc.prems x st' show ?thesis by (simp add: standalone_step_pair map_of_dict_set)
  qed
qed

lemma standalone_fold_keys:
  "fst ` set (snd (foldl standalone_step st data)) =
   fst ` set (snd st) \<union> {f. \<exists>v. (f, v) \<in> set data \<and> is_standalone_pii f v}"
proof (induction data arbitrary: st)
  case Nil
  then show ?case by simp
next
  case (Cons x xs)
  obtain f v where x: "x = (f, v)" by (cases x)
  obtain hs pf where st: "st = (hs, pf)" by (cases st)
  have "fst ` set (snd (standalone_step st x)) =
        fst ` set pf \<union> (if is_standalone_pii f v then {f} else {})"
    using x st arg_cong[OF keys_dict_set[of pf f "mask_value f v"], of set]
    by (auto simp: standalone_step_pair)
  with Cons.IH[of "standalone_step st x"] x st show ?case by auto
qed

lemma combinatorial_step_cases:
  assumes "combinatorial_step pf fv = Inr pf'"
  shows "pf' = pf \<or> (\<exists>m. \<not> dict_has pf (fst fv) \<and> pf' = dict_set pf (fst fv) m)"
proof -
  obtain f v where fv: "fv = (f, v)" by (cases fv)
  show ?thesis
  proof (cases "f \<in> set combinatorial_fields \<and> truthy v \<and> \<not> dict_has pf f")
    case False
    with assms fv show ?thesis by (simp add: combinatorial_step_def)
  next
    case True
    show ?thesis
    proof (cases "name_test f v")
      case (Inl e)
      with assms fv True show ?thesis by (simp add: combinatorial_step_def)
    next
      case (Inr b)
      with assms fv True
      have "pf' = pf \<or> pf' = dict_set pf f (mask_value f v) \<or> pf' = dict_set pf f ''[REDACTED]''"
        by (simp add: combinatorial_step_def split: if_splits)
      with True fv show ?thesis by auto
    qed
  qed
qed

lemma set_keys_dict_set: "fst ` set (dict_set d k v) = insert k (fst ` set d)"
  using arg_cong[OF keys_dict_set[of d k v], of set] by auto

lemma combinatorial_step_distinct:
  assumes "combinatorial_step pf fv = Inr pf'" "distinct (map fst pf)"
  shows "distinct (map fst pf')"
  using combinatorial_step_cases[OF assms(1)] assms(2) by (auto simp: distinct_dict_set)

lemma combinatorial_step_lookup:
  assumes "combinatorial_step pf fv = Inr pf'" "k \<in> fst ` set pf"
  shows "map_of pf' k = map_of pf k"
proof -
  from combinatorial_step_cases[OF assms(1)]
  consider "pf' = pf" | m where "\<not> dict_has pf (fst fv)" "pf' = dict_set pf (fst fv) m" by blast
  then show ?thesis
  proof cases
    case 1
    then show ?thesis by simp
  next
    case 2
    from 2(1) assms(2) have "k \<noteq> fst fv" by (auto simp: dict_has_def dest: fst_in_keys)
    with 2(2) show ?thesis by (simp add: map_of_dict_set)
  qed
qed

lemma combinatorial_step_keys:
  assumes "combinatorial_step pf fv = Inr pf'"
  shows "fst ` set pf \<subseteq> fst ` set pf'"
  using combinatorial_step_cases[OF assms] by (auto simp: set_keys_dict_set dest: fst_in_keys)

lemma combinatorial_pass_keys:
  "for_each combinatorial_step data pf = Inr pf' \<Longrightarrow> fst ` set pf \<subseteq> fst ` set pf'"
proof (induction data arbitrary: pf)
  case Nil
  then show ?case by simp
next
  case (Cons x xs)
  from Cons.prems obtain pf1 where 1: "combinatorial_step pf x = Inr pf1"
    and 2: "for_each combinatorial_step xs pf1 = Inr pf'"
    by (auto split: sum.splits)
  from combinatorial_step_keys[OF 1] Cons.IH[OF 2] show ?case by blast
qed

lemma combinatorial_pass_distinct:
  "for_each combinatorial_step data pf = Inr pf' \<Longrightarrow> distinct (map fst pf) \<Longrightarrow>
   distinct (map fst pf')"
proof (induction data arbitrary: pf)
  case Nil
  then show ?case by simp
next
  case (Cons x xs)
  from Cons.prems(1) obtain pf1 where 1: "combinatorial_step pf x = Inr pf1"
    and 2: "for_each combinatorial_step xs pf1 = Inr pf'"
    by (auto split: sum.splits)
  from combinatorial_step_distinct[OF 1 Cons.prems(2)] Cons.IH[OF 2] show ?case by blast
qed

lemma combinatorial_pass_lookup:
  "for_each combinatorial_step data pf = Inr pf' \<Longrightarrow> k \<in> fst ` set pf \<Longrightarrow>
   map_of pf' k = map_of pf k"
proof (induction data arbitrary: pf)
  case Nil
  then show ?case by simp
next
  case (Cons x xs)
  from Cons.prems(1) obtain pf1 where 1: "combinatorial_step pf x = Inr pf1"
    and 2: "for_each combinatorial_step xs pf1 = Inr pf'"
    by (auto split: sum.splits)
  from combinatorial_step_keys[OF 1] Cons.prems(2) have k1: "k \<in> fst ` set pf1" by blast
  from Cons.IH[OF 2 k1] combinatorial_step_lookup[OF 1 Cons.prems(2)] show ?case by simp
qed

lemma redact_step_map:
  assumes "distinct (map fst rd)"
  shows "redact_step rd (k, m) = map (\<lambda>(f, x). (f, if f = k then VStr m else x)) rd"
proof (cases "k \<in> set (map fst rd)")
  case True
  then show ?thesis
    using dict_set_present[OF assms True] by (simp add: redact_step_def dict_has_def)
next
  case False
  then have "map (\<lambda>(f, x). (f, if f = k then VStr m else x)) rd = rd"
    by (induction rd) auto
  with False show ?thesis by (simp add: redact_step_def dict_has_def)
qed

lemma redact_record_map:
  "distinct (map fst data) \<Longrightarrow> distinct (map fst pii_fields) \<Longrightarrow>
   redact_record data pii_fields =
     map (\<lambda>(f, x). (f, case map_of pii_fields f of None \<Rightarrow> x | Some m \<Rightarrow> VStr m)) data"
  unfolding redact_record_def
proof (induction pii_fields arbitrary: data)
  case Nil
  then show ?case by (simp add: case_prod_unfold)
next
  case (Cons a pf)
  obtain k m where a: "a = (k, m)" by (cases a)
  let ?d = "map (\<lambda>(f, x). (f, if f = k then VStr m else x)) data"
  have keys: "map fst ?d = map fst data" by (induction data) auto
  from Cons.prems a have kn: "map_of pf k = None"
    by (simp add: map_of_eq_None_iff)
  have dd: "distinct (map fst ?d)" unfolding keys by (rule Cons.prems(1))
  have dp: "distinct (map fst pf)" using Cons.prems(2) by simp
  have "foldl redact_step data (a # pf) = foldl redact_step ?d pf"
    using a redact_step_map[OF Cons.prems(1)] by simp
  also have "\<dots> = map (\<lambda>(f, x). (f, case map_of pf f of None \<Rightarrow> x | Some m \<Rightarrow> VStr m)) ?d"
    by (rule Cons.IH[OF dd dp])
  also have "\<dots> = map (\<lambda>(f, x). (f, case map_of (a # pf) f of None \<Rightarrow> x | Some m \<Rightarrow> VStr m)) data"
    using a kn by (auto simp: case_prod_unfold split: option.splits)
  finally show ?case .
qed

lemma detect_pii_in_record_cases:
  assumes "detect_pii_in_record data = Inr (has_pii, pii_fields)"
  shows "pii_fields = snd (standalone_pass data)
       \<or> combinatorial_pass data (snd (standalone_pass data)) = Inr pii_fields"
  using assms
  by (cases "standalone_pass data")
     (auto simp: detect_pii_in_record_def split: sum.splits if_splits)

lemma detect_pii_in_record_distinct:
  assumes "detect_pii_in_record data = Inr (has_pii, pii_fields)"
  shows "distinct (map fst pii_fields)"
  using detect_pii_in_record_cases[OF assms] standalone_pass_distinct[of data]
    combinatorial_pass_distinct[of data "snd (standalone_pass data)" pii_fields]
  by (auto simp: combinatorial_pass_def)

lemma map_of_map_values:
  "map_of (map (\<lambda>(f, x). (f, g f x)) d) k = map_option (g k) (map_of d k)"
  by (induction d) auto

section \<open>When the detector raises\<close>

lemma name_test_error: "(\<exists>e. name_test field v = Inl e) \<longleftrightarrow> raises_on (field, v)"
  by (cases v) (auto simp: name_test_def is_valid_name_def raises_on_def Let_def)

lemma comb_step_error: "(\<exists>e. comb_step present fv = Inl e) \<longleftrightarrow> raises_on fv"
proof -
  obtain f v where fv: "fv = (f, v)" by (cases fv)
  show ?thesis
  proof (cases "name_test f v")
    case (Inl e)
    with name_test_error[of f v] have r: "raises_on (f, v)" by auto
    then have "truthy v" by (simp add: raises_on_def)
    with Inl r fv show ?thesis by (simp add: comb_step_def)
  next
    case (Inr b)
    with name_test_error[of f v] have r: "\<not> raises_on (f, v)" by auto
    have "\<exists>present'. comb_step present (f, v) = Inr present'"
      using Inr by (simp add: comb_step_def)
    with r fv show ?thesis by auto
  qed
qed

lemma combinatorial_step_error:
  assumes "combinatorial_step pf fv = Inl e"
  shows "raises_on fv"
proof -
  obtain f v where fv: "fv = (f, v)" by (cases fv)
  show ?thesis
  proof (cases "name_test f v")
    case (Inl e')
    with name_test_error[of f v] fv show ?thesis by auto
  next
    case (Inr b)
    have "\<exists>pf'. combinatorial_step pf (f, v) = Inr pf'"
      using Inr by (simp add: combinatorial_step_def)
    with assms fv show ?thesis by auto
  qed
qed

lemma for_each_error:
  assumes "\<And>st x. (\<exists>e. body st x = Inl e) \<longleftrightarrow> bad x"
  shows "(\<exists>e. for_each body xs st = Inl e) \<longleftrightarrow> (\<exists>x \<in> set xs. bad x)"
proof (induction xs arbitrary: st)
  case Nil
  then show ?case by simp
next
  case (Cons x xs)
  show ?case
  proof (cases "body st x")
    case (Inl e)
    with assms[of st x] show ?thesis by auto
  next
    case (Inr st')
    with assms[of st x] have "\<not> bad x" by auto
    with Inr Cons.IH[of st'] show ?thesis by simp
  qed
qed

lemma for_each_no_error:
  assumes "\<And>st x e. body st x = Inl e \<Longrightarrow> bad x" and "\<forall>x \<in> set xs. \<not> bad x"
  shows "\<exists>st'. for_each body xs st = Inr st'"
  using assms(2)
proof (induction xs arbitrary: st)
  case Nil
  then show ?case by simp
next
  case (Cons x xs)
  from Cons.prems assms(1)[of st x] obtain st1 where 1: "body st x = Inr st1"
    by (cases "body st x") auto
  from Cons.IH[of st1] Cons.prems obtain st2 where "for_each body xs st1 = Inr st2" by auto
  with 1 show ?case by simp
qed

text \<open>
  \<open>detect_pii_in_record\<close> returns on every record but those with a field \<open>name\<close> whose
  value is true and not a string (a number, \<open>true\<close>, a list or an object); on those it
  raises, and \<open>process_csv_file\<close> writes the row with \<open>{}\<close> and no PII flag.
\<close>

theorem detect_pii_in_record_raises_iff:
  "(\<exists>e. detect_pii_in_record data = Inl e) \<longleftrightarrow> (\<exists>fv \<in> set data. raises_on fv)"
proof -
  have c: "(\<exists>e. pii_fields_present data = Inl e) \<longleftrightarrow> (\<exists>fv \<in> set data. raises_on fv)"
    unfolding pii_fields_present_def by (rule for_each_error) (rule comb_step_error)
  obtain hs pf where sp: "standalone_pass data = (hs, pf)" by (cases "standalone_pass data")
  show ?thesis
  proof (cases "\<exists>fv \<in> set data. raises_on fv")
    case True
    with c obtain e where "pii_fields_present data = Inl e" by auto
    then have "detect_pii_in_record data = Inl e"
      using sp by (simp add: detect_pii_in_record_def has_combinatorial_pii_def)
    with True show ?thesis by auto
  next
    case False
    with c obtain present where p: "pii_fields_present data = Inr present"
      by (cases "pii_fields_present data") auto
    from False have nr: "\<forall>x \<in> set data. \<not> raises_on x" by simp
    have "\<exists>pf'. for_each combinatorial_step data pf = Inr pf'"
      using combinatorial_step_error nr by (rule for_each_no_error)
    then obtain pf' where "combinatorial_pass data pf = Inr pf'"
      by (auto simp: combinatorial_pass_def)
    with p sp have "\<exists>r. detect_pii_in_record data = Inr r"
      by (cases "2 \<le> length present")
         (auto simp: detect_pii_in_record_def has_combinatorial_pii_def)
    with False show ?thesis by auto
  qed
qed

section \<open>Record-level orchestration and re-serialisation\<close>

text \<open>
  C6.  In \<open>detect_pii_in_record\<close> a field masked by the standalone pass is not written
  again by the combinatorial pass: in the mapping returned, no field appears twice,
  every field of the standalone pass's mapping has the value that pass gave it, and so
  every field of the record that passes the standalone test maps to the mask of its own
  value.  A decoded record holds each field name once.
\<close>

theorem C6_first_writer_wins:
  assumes "distinct (map fst data)"
    and "detect_pii_in_record data = Inr (has_pii, pii_fields)"
  shows "distinct (map fst pii_fields)
    \<and> (\<forall>f \<in> fst ` set (snd (standalone_pass data)).
          dict_get pii_fields f = dict_get (snd (standalone_pass data)) f)
    \<and> (\<forall>(f, v) \<in> set data.
          is_standalone_pii f v \<longrightarrow> dict_get pii_fields f = Some (mask_value f v))"
proof -
  obtain hs pf where sp: "standalone_pass data = (hs, pf)"
    by (cases "standalone_pass data")
  have dpf: "distinct (map fst pf)"
    using standalone_pass_distinct[of data] sp by simp
  have first: "map_of pf f = Some (mask_value f v)"
    if "(f, v) \<in> set data" "is_standalone_pii f v" for f v
    using standalone_fold_lookup[OF assms(1) that, of "(False, [])"] sp
    by (simp add: standalone_pass_def)
  have keys: "f \<in> fst ` set pf" if "(f, v) \<in> set data" "is_standalone_pii f v" for f v
    using first[OF that] by (meson domI domIff map_of_eq_None_iff)
  from assms(2) sp
  consider (same) "pii_fields = pf"
    | (comb) "combinatorial_pass data pf = Inr pii_fields"
    by (auto simp: detect_pii_in_record_def split: sum.splits if_splits)
  then show ?thesis
  proof cases
    case same
    with dpf first sp show ?thesis by (auto simp: dict_get_def)
  next
    case comb
    then have fe: "for_each combinatorial_step data pf = Inr pii_fields"
      by (simp add: combinatorial_pass_def)
    have 1: "distinct (map fst pii_fields)"
      using combinatorial_pass_distinct[OF fe dpf] .
    have 2: "map_of pii_fields f = map_of pf f" if "f \<in> fst ` set pf" for f
      using combinatorial_pass_lookup[OF fe that] .
    have 3: "map_of pii_fields f = Some (mask_value f v)"
      if "(f, v) \<in> set data" "is_standalone_pii f v" for f v
      using 2[OF keys[OF that]] first[OF that] by simp
    from 1 2 3 sp show ?thesis by (auto simp: dict_get_def)
  qed
qed

theorem C6_first_writer_wins_witness:
  "distinct (map fst [(''phone'', VStr ''9876543210''), (''name'', VStr ''John Smith''),
                      (''device_id'', VStr ''abc12345'')])
   \<and> detect_pii_in_record [(''phone'', VStr ''9876543210''), (''name'', VStr ''John Smith''),
                            (''device_id'', VStr ''abc12345'')]
       = Inr (True, [(''phone'', ''98XXXXXX10''), (''name'', ''JXXX SXXXX''),
                     (''device_id'', ''[REDACTED]'')])
   \<and> snd (standalone_pass [(''phone'', VStr ''9876543210''), (''name'', VStr ''John Smith''),
                            (''device_id'', VStr ''abc12345'')]) = [(''phone'', ''98XXXXXX10'')]
   \<and> dict_get [(''phone'', ''98XXXXXX10''), (''name'', ''JXXX SXXXX''),
                (''device_id'', ''[REDACTED]'')] ''phone''
       = Some (mask_value ''phone'' (VStr ''9876543210''))"
proof -
  let ?d = "[(''phone'', VStr ''9876543210''), (''name'', VStr ''John Smith''),
             (''device_id'', VStr ''abc12345'')]"
  let ?pf = "[(''phone'', ''98XXXXXX10''), (''name'', ''JXXX SXXXX''), (''device_id'', ''[REDACTED]'')]"
  have h1: "distinct (map fst ?d)" by simp
  have h2: "detect_pii_in_record ?d = Inr (True, ?pf)" by code_simp
  have h3: "snd (standalone_pass ?d) = [(''phone'', ''98XXXXXX10'')]" by code_simp
  have h4: "is_standalone_pii ''phone'' (VStr ''9876543210'')" by code_simp
  from C6_first_writer_wins[OF h1 h2] h4
  have "dict_get ?pf ''phone'' = Some (mask_value ''phone'' (VStr ''9876543210''))" by simp
  with h1 h2 h3 show ?thesis by simp
qed

text \<open>
  C9.  When PII is detected in a decoded record, the payload written is the
  serialisation of a copy of the record with the same field names in the same order,
  in which a field of the masked-field mapping holds its mask and every other field
  holds the value it was decoded to.
\<close>

theorem C9_reserialization_frame:
  assumes "distinct (map fst data)"
    and "detect_pii_in_record data = Inr (True, pii_fields)"
  shows "process_decoded data_json data = (Dumps (redact_record data pii_fields), True)
    \<and> map fst (redact_record data pii_fields) = map fst data
    \<and> redact_record data pii_fields =
        map (\<lambda>(f, x). (f, case dict_get pii_fields f of None \<Rightarrow> x | Some m \<Rightarrow> VStr m)) data
    \<and> (\<forall>f. dict_get pii_fields f = None \<longrightarrow>
          dict_get (redact_record data pii_fields) f = dict_get data f)"
proof -
  let ?g = "\<lambda>f x. case map_of pii_fields f of None \<Rightarrow> x | Some m \<Rightarrow> VStr m"
  have eq: "redact_record data pii_fields = map (\<lambda>(f, x). (f, ?g f x)) data"
    using redact_record_map[OF assms(1) detect_pii_in_record_distinct[OF assms(2)]] .
  have keys: "map fst (map (\<lambda>(f, x). (f, ?g f x)) data) = map fst data"
    by (induction data) auto
  have look: "map_of (map (\<lambda>(f, x). (f, ?g f x)) data) f = map_of data f"
    if "map_of pii_fields f = None" for f
    using that map_of_map_values[of ?g data f] by (cases "map_of data f") auto
  from assms(2) have "process_decoded data_json data = (Dumps (redact_record data pii_fields), True)"
    by (simp add: process_decoded_def)
  with eq keys look show ?thesis by (simp add: dict_get_def)
qed

theorem C9_reserialization_frame_witness:
  "distinct (map fst [(''phone'', VStr ''9876543210''), (''city'', VStr ''Pune''), (''qty'', VInt 3)])
   \<and> detect_pii_in_record [(''phone'', VStr ''9876543210''), (''city'', VStr ''Pune''), (''qty'', VInt 3)]
       = Inr (True, [(''phone'', ''98XXXXXX10'')])
   \<and> process_decoded ''{}'' [(''phone'', VStr ''9876543210''), (''city'', VStr ''Pune''), (''qty'', VInt 3)]
       = (Dumps [(''phone'', VStr ''98XXXXXX10''), (''city'', VStr ''Pune''), (''qty'', VInt 3)], True)"
proof -
  let ?d = "[(''phone'', VStr ''9876543210''), (''city'', VStr ''Pune''), (''qty'', VInt 3)]"
  have h1: "distinct (map fst ?d)" by simp
  have h2: "detect_pii_in_record ?d = Inr (True, [(''phone'', ''98XXXXXX10'')])" by code_simp
  from C9_reserialization_frame[OF h1 h2, of "''{}''"]
  have "process_decoded ''{}'' ?d
        = (Dumps [(''phone'', VStr ''98XXXXXX10''), (''city'', VStr ''Pune''), (''qty'', VInt 3)], True)"
    by (simp add: dict_get_def)
  with h1 h2 show ?thesis by simp
qed

section \<open>The matcher: prefixes, anchored matches and searches\<close>

lemma dropWhile_none: "\<forall>c \<in> set xs. \<not> P c \<Longrightarrow> dropWhile P xs = xs"
  by (cases xs) auto

lemma strip_no_space:
  assumes "\<forall>c \<in> set s. \<not> is_space c"
  shows "strip s = s"
proof -
  have l: "dropWhile is_space s = s" using assms by (rule dropWhile_none)
  have "\<forall>c \<in> set (rev s). \<not> is_space c" using assms by simp
  then have "dropWhile is_space (rev s) = rev s" by (rule dropWhile_none)
  with l show ?thesis by (simp add: strip_def lstrip_def rstrip_def)
qed

lemma digit_not_space: "is_digit c \<Longrightarrow> \<not> is_space c"
  by (auto simp: is_digit_def is_space_def)

lemma take_min_length: "take (min (length s) j) s = take j s"
  by (cases "j \<le> length s") (simp_all add: min_def)

lemma matches_prefix:
  "(t, g) \<in> set (matches r p s) \<Longrightarrow> t = take (length t) s"
proof (induction r arbitrary: p s t g)
  case (Rep P lo hi)
  then show ?case by (auto simp: take_min_length)
next
  case (Seq r1 r2)
  from Seq.prems obtain t1 g1 t2 g2 where
    1: "(t1, g1) \<in> set (matches r1 p s)"
    and 2: "(t2, g2) \<in> set (matches r2 (advance p t1) (drop (length t1) s))"
    and t: "t = t1 @ t2"
    by auto
  from Seq.IH(1)[OF 1] Seq.IH(2)[OF 2] have "t1 @ t2 = take (length t1 + length t2) s"
    by (metis take_add)
  with t show ?case by (simp add: take_min_length)
next
  case (Grp i r)
  then show ?case by auto
qed (auto split: if_splits)

lemma re_match_iff: "re_match r s \<noteq> None \<longleftrightarrow> matches_at r s 0"
  by (simp add: re_match_def matches_at_def char_before_def split: list.splits)

lemma re_match_prefix:
  assumes "re_match r s = Some (t, g)"
  shows "t = take (length t) s"
proof -
  from assms have "(t, g) \<in> set (matches r None s)"
    by (auto simp: re_match_def split: list.splits)
  then show ?thesis by (rule matches_prefix)
qed

lemma search_from_iff:
  "search_from r p s \<noteq> None \<longleftrightarrow>
   (\<exists>i \<le> length s. matches r (if i = 0 then p else Some (s ! (i - 1))) (drop i s) \<noteq> [])"
proof (induction s arbitrary: p)
  case Nil
  then show ?case by (auto split: list.splits)
next
  case (Cons c cs)
  let ?Q = "\<lambda>i. matches r (if i = 0 then p else Some ((c # cs) ! (i - 1))) (drop i (c # cs)) \<noteq> []"
  let ?R = "\<lambda>j. matches r (if j = 0 then Some c else Some (cs ! (j - 1))) (drop j cs) \<noteq> []"
  have shift: "?Q (Suc j) = ?R j" for j by (cases j) auto
  have "search_from r p (c # cs) \<noteq> None \<longleftrightarrow>
        matches r p (c # cs) \<noteq> [] \<or> search_from r (Some c) cs \<noteq> None"
    by (auto split: list.splits)
  also have "\<dots> \<longleftrightarrow> ?Q 0 \<or> (\<exists>j \<le> length cs. ?R j)"
    using Cons.IH[of "Some c"] by simp
  also have "\<dots> \<longleftrightarrow> ?Q 0 \<or> (\<exists>j \<le> length cs. ?Q (Suc j))"
    using shift by simp
  also have "\<dots> \<longleftrightarrow> (\<exists>i \<le> length (c # cs). ?Q i)"
  proof
    assume "?Q 0 \<or> (\<exists>j \<le> length cs. ?Q (Suc j))"
    then show "\<exists>i \<le> length (c # cs). ?Q i"
    proof
      assume "?Q 0" then show ?thesis by blast
    next
      assume "\<exists>j \<le> length cs. ?Q (Suc j)"
      then obtain j where "j \<le> length cs" "?Q (Suc j)" by blast
      then have "Suc j \<le> length (c # cs) \<and> ?Q (Suc j)" by simp
      then show ?thesis by blast
    qed
  next
    assume "\<exists>i \<le> length (c # cs). ?Q i"
    then obtain i where i: "i \<le> length (c # cs)" "?Q i" by blast
    show "?Q 0 \<or> (\<exists>j \<le> length cs. ?Q (Suc j))"
    proof (cases i)
      case 0
      with i show ?thesis by simp
    next
      case (Suc j)
      with i have "j \<le> length cs \<and> ?Q (Suc j)" by simp
      then show ?thesis by blast
    qed
  qed
  finally show ?case .
qed

lemma re_search_iff: "re_search r s \<noteq> None \<longleftrightarrow> found_anywhere r s"
  unfolding re_search_def found_anywhere_def matches_at_def char_before_def
  by (rule search_from_iff)

lemma matches_one:
  "matches (one P) p s = (case s of [] \<Rightarrow> [] | c # cs \<Rightarrow> if P c then [([c], [])] else [])"
  by (cases s) (simp_all add: rep_max_def)

lemma search_one:
  "search_from (one P) p s \<noteq> None \<longleftrightarrow> (\<exists>c \<in> set s. P c)"
proof (induction s arbitrary: p)
  case Nil
  then show ?case by (simp add: rep_max_def)
next
  case (Cons c cs)
  show ?case
  proof (cases "P c")
    case True
    then show ?thesis by (simp add: rep_max_def)
  next
    case False
    then have "matches (one P) p (c # cs) = []" by (simp add: rep_max_def)
    then have "search_from (one P) p (c # cs) \<noteq> None \<longleftrightarrow> search_from (one P) (Some c) cs \<noteq> None"
      by simp
    with Cons.IH[of "Some c"] False show ?thesis by simp
  qed
qed

lemma scan_no_match:
  "search_from r p s = None \<Longrightarrow> scan r 0 p s = map Keep s"
proof (induction s arbitrary: p)
  case Nil
  then show ?case by (simp add: hits_def split: list.splits)
next
  case (Cons c cs)
  from Cons.prems have m: "matches r p (c # cs) = []" and rest: "search_from r (Some c) cs = None"
    by (auto split: list.splits)
  from m have h: "hits r p (c # cs) = []" by (simp add: hits_def)
  from h Cons.IH[OF rest] show ?case by (simp add: consumed_def)
qed

lemma re_sub_no_match: "re_search r s = None \<Longrightarrow> re_sub r repl s = s"
  by (simp add: re_sub_def re_search_def scan_no_match comp_def)

lemma re_finditer_no_match: "re_search r s = None \<Longrightarrow> re_finditer r s = []"
  by (simp add: re_finditer_def re_search_def scan_no_match comp_def)

lemma matches_SeqI:
  assumes "(t1, g1) \<in> set (matches r1 p s)"
    and "(t2, g2) \<in> set (matches r2 (advance p t1) (drop (length t1) s))"
  shows "(t1 @ t2, g2 @ g1) \<in> set (matches (Seq r1 r2) p s)"
  using assms by force

lemma matches_RepI:
  assumes "lo \<le> j" and "j \<le> length (takeWhile P s)"
    and "case hi of None \<Rightarrow> True | Some h \<Rightarrow> j \<le> h"
  shows "(take j s, []) \<in> set (matches (Rep P lo hi) p s)"
proof -
  from assms have "j \<in> set [lo ..< Suc (rep_max P hi s)]"
    by (auto simp: rep_max_def split: option.splits)
  then show ?thesis by auto
qed

lemma matches_WordBI:
  "word_opt p \<noteq> word_opt (next_char s) \<Longrightarrow> ([], []) \<in> set (matches WordB p s)"
  by simp

lemma takeWhile_prefix_length:
  "\<forall>c \<in> set xs. P c \<Longrightarrow> length xs \<le> length (takeWhile P (xs @ ys))"
  by (simp add: takeWhile_append2)

lemma word_not_space: "is_word c \<Longrightarrow> \<not> is_space c"
  by (auto simp: is_word_def is_space_def is_digit_def is_alpha_def is_upper_def is_lower_def)

lemma word_or_dot_not_space: "word_or_dot c \<Longrightarrow> \<not> is_space c"
  by (auto simp: word_or_dot_def word_not_space) (simp add: is_space_def cp_def)

lemma matches_SeqI2:
  assumes "(t1, g1) \<in> set (matches r1 p s)" and "s = t1 @ s'" and "p' = advance p t1"
    and "(t2, g2) \<in> set (matches r2 p' s')" and "t = t1 @ t2"
  shows "(t, g2 @ g1) \<in> set (matches (Seq r1 r2) p s)"
proof -
  from assms(2-4) have "(t2, g2) \<in> set (matches r2 (advance p t1) (drop (length t1) s))"
    by (simp del: matches.simps)
  from matches_SeqI[OF assms(1) this] assms(5) show ?thesis by (simp del: matches.simps)
qed

lemma matches_RepI2:
  assumes "s = t @ s'" and "\<forall>c \<in> set t. P c" and "lo \<le> length t"
    and "case hi of None \<Rightarrow> True | Some h \<Rightarrow> length t \<le> h"
  shows "(t, []) \<in> set (matches (Rep P lo hi) p s)"
proof -
  have "length t \<le> length (takeWhile P s)"
    unfolding assms(1) using assms(2) by (rule takeWhile_prefix_length)
  from matches_RepI[OF assms(3) this assms(4), of p] assms(1) show ?thesis
    by (simp del: matches.simps)
qed

lemma upi_first_alternative:
  assumes u: "u \<noteq> []" "\<forall>c \<in> set u. word_or_dot c" "is_word (hd u)"
    and d1: "\<forall>c \<in> set d1. word_or_dot c"
    and c: "is_word c"
    and d2: "d2 = [] \<or> \<not> is_word (hd d2)"
  shows "(u @ ''@'' @ d1 @ [c], []) \<in> set (matches upi_pattern None (u @ ''@'' @ d1 @ c # d2))"
proof -
  let ?s4 = "d1 @ c # d2"
  let ?s3 = "''@'' @ ?s4"
  let ?s = "u @ ?s3"
  let ?wd = "plus word_or_dot"
  let ?r4 = "Seq ?wd WordB"
  let ?r3 = "Seq (lit (CHR ''@'')) ?r4"
  let ?r2 = "Seq ?wd ?r3"
  have m5: "([], []) \<in> set (matches WordB (Some c) d2)"
    using c d2 by (cases d2) (auto simp: word_opt_def next_char_def)
  have m4: "(d1 @ [c], []) \<in> set (matches ?wd (Some (CHR ''@'')) ?s4)"
    using d1 c by (intro matches_RepI2[where s'=d2]) (auto simp: word_or_dot_def)
  have m45: "(d1 @ [c], [] @ []) \<in> set (matches ?r4 (Some (CHR ''@'')) ?s4)"
    by (rule matches_SeqI2[OF m4 _ _ m5]) (simp_all add: advance_def)
  have m3: "(''@'', []) \<in> set (matches (lit (CHR ''@'')) (Some (last u)) ?s3)"
    by (intro matches_RepI2[where s'="?s4"]) auto
  have m345: "(''@'' @ d1 @ [c], ([] @ []) @ []) \<in> set (matches ?r3 (Some (last u)) ?s3)"
    by (rule matches_SeqI2[OF m3 _ _ m45]) (simp_all add: advance_def)
  have m2: "(u, []) \<in> set (matches ?wd None ?s)"
    using u by (intro matches_RepI2[where s'="?s3"]) (auto simp: Suc_le_eq)
  have m2345: "(u @ ''@'' @ d1 @ [c], (([] @ []) @ []) @ []) \<in> set (matches ?r2 None ?s)"
    by (rule matches_SeqI2[OF m2 _ _ m345]) (simp_all add: advance_def u(1))
  have m1: "([], []) \<in> set (matches WordB None ?s)"
    using u by (cases u) (auto simp: word_opt_def next_char_def)
  have "(u @ ''@'' @ d1 @ [c], ((([] @ []) @ []) @ []) @ []) \<in> set (matches (Seq WordB ?r2) None ?s)"
    by (rule matches_SeqI2[OF m1 _ _ m2345]) (simp_all add: advance_def)
  then have "(u @ ''@'' @ d1 @ [c], []) \<in> set (matches (Seq WordB ?r2) None ?s)"
    by (simp del: matches.simps)
  then show ?thesis
    unfolding upi_pattern_def seqs.simps matches.simps(6) by (simp del: matches.simps)
qed

lemma email_shaped_matches_upi:
  assumes "u \<noteq> []" "\<forall>c \<in> set u. word_or_dot c" "is_word (hd u)"
    and "\<forall>c \<in> set d. word_or_dot c" "\<exists>c \<in> set d. is_word c"
  shows "matches_at upi_pattern (u @ ''@'' @ d) 0"
proof -
  from split_list_last_prop[OF assms(5)] obtain d1 c d2 where
    d: "d = d1 @ c # d2" and c: "is_word c" and d2: "\<forall>z \<in> set d2. \<not> is_word z"
    by blast
  from d2 have d2': "d2 = [] \<or> \<not> is_word (hd d2)" by (cases d2) auto
  from assms(4) d have d1: "\<forall>c \<in> set d1. word_or_dot c" by simp
  from upi_first_alternative[OF assms(1-3) d1 c d2'] d
  have "matches upi_pattern None (u @ ''@'' @ d) \<noteq> []" by auto
  then show ?thesis by (simp add: matches_at_def char_before_def)
qed

lemma falsy_text_short_or_no_handle:
  assumes "\<not> truthy v"
  shows "length (strip (py_str v)) < 3 \<or> \<not> matches_at upi_pattern (strip (py_str v)) 0"
proof -
  have n: "\<not> matches_at upi_pattern (strip ''None'') 0" by code_simp
  have f: "\<not> matches_at upi_pattern (strip ''False'') 0" by code_simp
  have z: "\<not> matches_at upi_pattern (strip ''0.0'') 0" by code_simp
  have m: "\<not> matches_at upi_pattern (strip ''-0.0'') 0" by code_simp
  have i: "length (strip (str_int 0)) < 3" by code_simp
  have e: "length (strip []) < 3" "length (strip ''[]'') < 3" "length (strip ''{}'') < 3"
    by code_simp+
  from assms show ?thesis
    by (cases v) (use n f z m i e in \<open>auto split: if_splits\<close>)
qed

lemma six_X: "''XXXXXX'' = replicate 6 (CHR ''X'')"
  by (simp add: numeral_eq_Suc)

lemma length4: "length xs = 4 \<Longrightarrow> \<exists>w x y z. xs = [w, x, y, z]"
  by (auto simp: numeral_eq_Suc length_Suc_conv)

lemma strip_ends:
  assumes "s \<noteq> []" "\<not> is_space (hd s)" "\<not> is_space (last s)"
  shows "strip s = s"
proof -
  have l: "dropWhile is_space s = s" using assms(1,2) by (cases s) auto
  have "dropWhile is_space (rev s) = rev s"
    using assms(1,3) by (cases "rev s") (auto simp: last_rev[symmetric] simp del: last_rev)
  with l show ?thesis by (simp add: strip_def lstrip_def rstrip_def)
qed

lemma digit_word: "is_digit c \<Longrightarrow> is_word c"
  by (simp add: is_word_def)

lemma sep_not_digit: "space_or_hyphen c \<Longrightarrow> \<not> is_digit c"
  by (auto simp: space_or_hyphen_def is_space_def is_digit_def cp_def)

lemma matches_exactly:
  "matches (exactly n P) p s = (if n \<le> length (takeWhile P s) then [(take n s, [])] else [])"
  by (auto simp: rep_max_def min_def)

lemma scan_one:
  "scan (one P) 0 p s = map (\<lambda>c. if P c then Hit [c] [] else Keep c) s"
proof (induction s arbitrary: p)
  case Nil
  then show ?case by (simp add: hits_def rep_max_def)
next
  case (Cons c cs)
  show ?case
  proof (cases "P c")
    case True
    then have "hits (one P) p (c # cs) = [([c], [])]" by (simp add: hits_def rep_max_def)
    with True Cons.IH show ?thesis by (simp add: consumed_def)
  next
    case False
    then have "hits (one P) p (c # cs) = []" by (simp add: hits_def rep_max_def)
    with False Cons.IH show ?thesis by (simp add: consumed_def)
  qed
qed

lemma strip_non_digits: "re_sub non_digit_pattern (\<lambda>g. []) s = filter is_digit s"
  unfolding re_sub_def non_digit_pattern_def scan_one
  by (induction s) auto

lemma phone_match_none:
  assumes "length (takeWhile is_digit s) < 10 \<or> (10 < length s \<and> is_word (s ! 10))"
  shows "re_match phone_pattern s = None"
proof (cases "length (takeWhile is_digit s) < 10")
  case True
  then show ?thesis
    by (simp add: re_match_def phone_pattern_def matches_exactly del: matches.simps(1))
next
  case False
  with assms have long: "10 < length s" and w: "is_word (s ! 10)" by auto
  from False have ten: "10 \<le> length (takeWhile is_digit s)" by simp
  have "take 10 s = take 10 (takeWhile is_digit s @ dropWhile is_digit s)" by simp
  also have "\<dots> = take 10 (takeWhile is_digit s)" using ten by (simp del: takeWhile_dropWhile_id)
  finally have t: "take 10 s = take 10 (takeWhile is_digit s)" .
  have ne: "take 10 s \<noteq> []" using long by auto
  then have "last (take 10 s) \<in> set (take 10 (takeWhile is_digit s))"
    using t last_in_set by metis
  then have "last (take 10 s) \<in> set (takeWhile is_digit s)" by (rule in_set_takeD)
  then have lw: "is_word (last (take 10 s))" by (auto dest: set_takeWhileD digit_word)
  have nx: "next_char (drop 10 s) = Some (s ! 10)"
    using long by (cases "drop 10 s") (auto simp: next_char_def hd_drop_conv_nth[symmetric] dest: arg_cong[where f=hd])
  have m: "min (length s) 10 = 10" using long by simp
  from ten ne lw w nx m show ?thesis
    by (simp add: re_match_def phone_pattern_def matches_exactly advance_def word_opt_def
        del: matches.simps(1))
qed

section \<open>The standalone test, the address test and the phone mask\<close>

text \<open>
  C4.  The address test does not trim: a text of ten characters whose trimmed form has
  three is accepted, so the claim as stated (rejection whenever the trimmed length is
  below 10) fails.
\<close>

theorem C4_address_counterexample:
  "is_valid_address (VStr ''a,1       '') \<and> length (strip (py_str (VStr ''a,1       ''))) = 3"
  by code_simp

text \<open>
  C4, amended.  The address test rejects a value that is missing (false as a Python
  value) or whose text, whitespace included, has fewer than 10 characters; otherwise it
  accepts if and only if the text contains a comma and either contains a digit or has
  at least 4 whitespace-separated tokens.
\<close>

theorem C4_address_test:
  "is_valid_address v =
     (truthy v \<and> 10 \<le> length (py_str v) \<and> CHR '','' \<in> set (py_str v)
      \<and> ((\<exists>c \<in> set (py_str v). is_digit c) \<or> 4 \<le> length (split_ws (py_str v))))"
proof -
  have "re_search digit_pattern s \<noteq> None \<longleftrightarrow> (\<exists>c \<in> set s. is_digit c)" for s
    unfolding re_search_def digit_pattern_def by (rule search_one)
  then show ?thesis
    unfolding is_valid_address_def Let_def by auto
qed

theorem C4_address_test_witness:
  "is_valid_address (VStr ''123 Main St, Springfield'')
   \<and> \<not> is_valid_address (VStr ''no comma here'')
   \<and> \<not> is_valid_address (VStr ''a,1'')"
proof -
  have d: "is_digit (CHR ''1'')" by (simp add: is_digit_def cp_def)
  have a: "is_valid_address (VStr ''123 Main St, Springfield'')"
    using C4_address_test[of "VStr ''123 Main St, Springfield''"] d by simp
  have b: "\<not> is_valid_address (VStr ''no comma here'')"
    using C4_address_test[of "VStr ''no comma here''"] by simp
  have c: "\<not> is_valid_address (VStr ''a,1'')"
    using C4_address_test[of "VStr ''a,1''"] by simp
  from a b c show ?thesis by simp
qed

text \<open>
  C5.  The standalone test is false when the value is empty (false as a Python value)
  or its trimmed text has fewer than 3 characters; otherwise it is true exactly when
  the field is named \<open>phone\<close>, \<open>aadhar\<close>, \<open>passport\<close> or \<open>upi_id\<close>, or one of the four
  patterns matches the trimmed text at position 0.  A match at position 0 covers a
  prefix of the text, not necessarily all of it.
\<close>

theorem C5_standalone_test:
  "is_standalone_pii field v =
     (if \<not> truthy v \<or> length (strip (py_str v)) < 3 then False
      else field = ''phone'' \<or> field = ''aadhar'' \<or> field = ''passport'' \<or> field = ''upi_id''
         \<or> matches_at phone_pattern (strip (py_str v)) 0
         \<or> matches_at aadhar_pattern (strip (py_str v)) 0
         \<or> matches_at passport_pattern (strip (py_str v)) 0
         \<or> matches_at upi_pattern (strip (py_str v)) 0)
   \<and> (\<forall>r s t g. re_match r s = Some (t, g) \<longrightarrow> matches_at r s 0 \<and> t = take (length t) s)"
proof -
  have "matches_at r s 0 \<and> t = take (length t) s" if "re_match r s = Some (t, g)" for r s t g
    using that re_match_iff[of r s] re_match_prefix[OF that] by simp
  moreover have "is_standalone_pii field v =
     (if \<not> truthy v \<or> length (strip (py_str v)) < 3 then False
      else field = ''phone'' \<or> field = ''aadhar'' \<or> field = ''passport'' \<or> field = ''upi_id''
         \<or> matches_at phone_pattern (strip (py_str v)) 0
         \<or> matches_at aadhar_pattern (strip (py_str v)) 0
         \<or> matches_at passport_pattern (strip (py_str v)) 0
         \<or> matches_at upi_pattern (strip (py_str v)) 0)"
    unfolding is_standalone_pii_def Let_def re_match_iff by auto
  ultimately show ?thesis by blast
qed

theorem C5_standalone_test_witness:
  "is_standalone_pii ''note'' (VStr ''9876543210 call me'')
   \<and> re_match phone_pattern ''9876543210 call me'' = Some (''9876543210'', [])
   \<and> \<not> is_standalone_pii ''note'' (VStr ''hello world'')
   \<and> \<not> is_standalone_pii ''phone'' (VStr ''12'')"
proof -
  have s1: "strip ''9876543210 call me'' = ''9876543210 call me''" by code_simp
  have m1: "re_match phone_pattern ''9876543210 call me'' = Some (''9876543210'', [])" by code_simp
  have s2: "strip ''hello world'' = ''hello world''" by code_simp
  have n2: "re_match phone_pattern ''hello world'' = None" "re_match aadhar_pattern ''hello world'' = None"
    "re_match passport_pattern ''hello world'' = None" "re_match upi_pattern ''hello world'' = None"
    by code_simp+
  have s3: "strip ''12'' = ''12''" by code_simp
  have a: "is_standalone_pii ''note'' (VStr ''9876543210 call me'')"
    using C5_standalone_test[of "''note''" "VStr ''9876543210 call me''"] s1 m1
    by (simp add: re_match_iff[symmetric])
  have b: "\<not> is_standalone_pii ''note'' (VStr ''hello world'')"
    using C5_standalone_test[of "''note''" "VStr ''hello world''"] s2 n2
    by (simp add: re_match_iff[symmetric])
  have c: "\<not> is_standalone_pii ''phone'' (VStr ''12'')"
    using C5_standalone_test[of "''phone''" "VStr ''12''"] s3 by simp
  from a b c m1 show ?thesis by simp
qed

text \<open>
  C7.  For a text \<open>v\<close> of exactly 10 digits, the standalone test on the field \<open>phone\<close> is
  true, and the mask keeps the first two and the last two characters of \<open>v\<close> and puts
  \<open>X\<close> in each of the six positions between them.
\<close>

theorem C7_ten_digit_phone:
  assumes "length v = 10" and "\<forall>c \<in> set v. is_digit c"
  shows "is_standalone_pii ''phone'' (VStr v)
    \<and> mask_value ''phone'' (VStr v) = take 2 v @ ''XXXXXX'' @ drop 8 v
    \<and> length (mask_value ''phone'' (VStr v)) = 10
    \<and> (\<forall>i < 10. mask_value ''phone'' (VStr v) ! i = (if 2 \<le> i \<and> i < 8 then CHR ''X'' else v ! i))"
proof -
  have st: "strip v = v"
    using assms(2) by (intro strip_no_space) (auto dest: digit_not_space)
  from assms(1) have ne: "v \<noteq> []" by auto
  have 1: "is_standalone_pii ''phone'' (VStr v)"
    using st ne assms(1) by (simp add: is_standalone_pii_def)
  have 2: "mask_value ''phone'' (VStr v) = take 2 v @ ''XXXXXX'' @ drop 8 v"
    using st assms(1) by (simp add: mask_value_def mask_phone_def last2_def)
  have 3: "(take 2 v @ ''XXXXXX'' @ drop 8 v) ! i = (if 2 \<le> i \<and> i < 8 then CHR ''X'' else v ! i)"
    if "i < 10" for i
    unfolding six_X using that assms(1) by (auto simp: nth_append)
  from 1 2 3 assms(1) show ?thesis by simp
qed

theorem C7_ten_digit_phone_witness:
  "length ''9876543210'' = 10
   \<and> is_standalone_pii ''phone'' (VStr ''9876543210'')
   \<and> mask_value ''phone'' (VStr ''9876543210'') = ''98XXXXXX10''"
proof -
  have h1: "length ''9876543210'' = 10" by simp
  have h2: "\<forall>c \<in> set ''9876543210''. is_digit c" by (simp add: is_digit_def cp_def)
  from C7_ten_digit_phone[OF h1 h2] show ?thesis by simp
qed

text \<open>
  C10.  In a field of any name, a value whose trimmed text has at least 3 characters and
  is matched at position 0 by the payment-handle pattern passes the standalone test.
  This covers the email-shaped texts: a local part of word characters and dots that
  starts with a word character, \<open>@\<close>, and a domain of word characters and dots that
  holds a word character.
\<close>

theorem C10_payment_handle_in_any_field:
  "(3 \<le> length (strip (py_str v)) \<and> matches_at upi_pattern (strip (py_str v)) 0
      \<longrightarrow> is_standalone_pii field v)
   \<and> (u \<noteq> [] \<and> (\<forall>c \<in> set u. word_or_dot c) \<and> is_word (hd u)
      \<and> (\<forall>c \<in> set d. word_or_dot c) \<and> (\<exists>c \<in> set d. is_word c)
      \<longrightarrow> matches_at upi_pattern (u @ ''@'' @ d) 0
          \<and> is_standalone_pii field (VStr (u @ ''@'' @ d)))"
proof -
  have general: "is_standalone_pii f x"
    if "3 \<le> length (strip (py_str x))" "matches_at upi_pattern (strip (py_str x)) 0" for f x
  proof -
    from that falsy_text_short_or_no_handle[of x] have t: "truthy x" by force
    from that(2) have "re_match upi_pattern (strip (py_str x)) \<noteq> None"
      by (simp only: re_match_iff)
    with t that(1) show ?thesis
      unfolding is_standalone_pii_def Let_def by simp
  qed
  have email: "matches_at upi_pattern (u @ ''@'' @ d) 0 \<and> is_standalone_pii field (VStr (u @ ''@'' @ d))"
    if "u \<noteq> []" "\<forall>c \<in> set u. word_or_dot c" "is_word (hd u)"
      "\<forall>c \<in> set d. word_or_dot c" "\<exists>c \<in> set d. is_word c"
  proof -
    have ma: "matches_at upi_pattern (u @ ''@'' @ d) 0"
      using that by (rule email_shaped_matches_upi)
    from that(5) have dne: "d \<noteq> []" by auto
    have "\<forall>c \<in> set (u @ ''@'' @ d). \<not> is_space c"
      using that(2,4) word_or_dot_not_space by (auto simp: is_space_def cp_def)
    then have st: "strip (u @ ''@'' @ d) = u @ ''@'' @ d" by (rule strip_no_space)
    from that(1) dne have "3 \<le> length (u @ ''@'' @ d)"
      by (cases u; cases d) auto
    with ma st general[of "VStr (u @ ''@'' @ d)" field] show ?thesis by simp
  qed
  from general email show ?thesis by blast
qed

theorem C10_payment_handle_in_any_field_witness:
  "is_standalone_pii ''notes'' (VStr ''john.doe@example.com'')
   \<and> is_standalone_pii ''email'' (VStr ''  a.b@c.org is mine '')"
proof -
  have w: "\<forall>c \<in> set ''john.doe''. word_or_dot c" "is_word (hd ''john.doe'')"
    "\<forall>c \<in> set ''example.com''. word_or_dot c" "\<exists>c \<in> set ''example.com''. is_word c"
    by code_simp+
  have a: "is_standalone_pii ''notes'' (VStr ''john.doe@example.com'')"
    using C10_payment_handle_in_any_field[of "VStr []" "''notes''" "''john.doe''" "''example.com''"] w
    by simp
  have s: "3 \<le> length (strip (py_str (VStr ''  a.b@c.org is mine '')))"
    "matches_at upi_pattern (strip (py_str (VStr ''  a.b@c.org is mine ''))) 0"
    by code_simp+
  have b: "is_standalone_pii ''email'' (VStr ''  a.b@c.org is mine '')"
    using C10_payment_handle_in_any_field[of "VStr ''  a.b@c.org is mine ''" "''email''" "[]" "[]"] s
    by blast
  from a b show ?thesis by simp
qed

text \<open>
  In the field \<open>aadhar\<close> the mask has the shape 2-X8-2 for every value of three groups
  of four digits, each two groups joined directly or by one whitespace character or
  hyphen: the separators are dropped, the first two and the last two digits are kept.
\<close>

theorem aadhar_field_mask:
  assumes len: "length a = 4" "length b = 4" "length c = 4"
    and dig: "\<forall>x \<in> set (a @ b @ c). is_digit x"
    and s1: "s1 = [] \<or> (\<exists>x. s1 = [x] \<and> space_or_hyphen x)"
    and s2: "s2 = [] \<or> (\<exists>x. s2 = [x] \<and> space_or_hyphen x)"
  shows "mask_value ''aadhar'' (VStr (a @ s1 @ b @ s2 @ c)) = take 2 a @ ''XXXXXXXX'' @ drop 2 c"
proof -
  let ?v = "a @ s1 @ b @ s2 @ c"
  from length4[OF len(1)] obtain a1 a2 a3 a4 where a: "a = [a1, a2, a3, a4]" by blast
  from length4[OF len(2)] obtain b1 b2 b3 b4 where b: "b = [b1, b2, b3, b4]" by blast
  from length4[OF len(3)] obtain c1 c2 c3 c4 where c: "c = [c1, c2, c3, c4]" by blast
  from dig a b c have d: "is_digit a1" "is_digit a2" "is_digit a3" "is_digit a4"
    "is_digit b1" "is_digit b2" "is_digit b3" "is_digit b4"
    "is_digit c1" "is_digit c2" "is_digit c3" "is_digit c4" by simp_all
  have "?v \<noteq> []" "hd ?v = a1" "last ?v = c4" using a c by simp_all
  with d(1,12) have st: "strip ?v = ?v"
    by (intro strip_ends) (simp_all add: digit_not_space)
  have ph: "re_match phone_pattern ?v = None"
  proof (rule phone_match_none)
    from s1 s2 show "length (takeWhile is_digit ?v) < 10 \<or> (10 < length ?v \<and> is_word (?v ! 10))"
      using a b c d by (auto simp: sep_not_digit digit_word)
  qed
  have fl: "filter is_digit ?v = a @ b @ c"
    using s1 s2 dig by (auto simp: sep_not_digit)
  have "length (a @ b @ c) = 12" using len by simp
  moreover have "take 2 (a @ b @ c) = take 2 a" using len by simp
  moreover have "last2 (a @ b @ c) = drop 2 c" using len by (simp add: last2_def)
  ultimately show ?thesis
    using st ph fl by (simp add: mask_value_def Let_def strip_non_digits)
qed

theorem aadhar_field_mask_witness:
  "mask_value ''aadhar'' (VStr ''1234 5678-9012'') = ''12XXXXXXXX12''
   \<and> mask_value ''aadhar'' (VStr ''123456789012'') = ''12XXXXXXXX12''"
proof -
  have d: "\<forall>x \<in> set (''1234'' @ ''5678'' @ ''9012''). is_digit x"
    by (simp add: is_digit_def cp_def)
  have s: "space_or_hyphen (CHR '' '')" "space_or_hyphen (CHR ''-'')"
    by (simp_all add: space_or_hyphen_def is_space_def cp_def)
  have 1: "mask_value ''aadhar'' (VStr ''1234 5678-9012'') = ''12XXXXXXXX12''"
    using aadhar_field_mask[of "''1234''" "''5678''" "''9012''" "'' ''" "''-''"] d s by simp
  have 2: "mask_value ''aadhar'' (VStr ''123456789012'') = ''12XXXXXXXX12''"
    using aadhar_field_mask[of "''1234''" "''5678''" "''9012''" "[]" "[]"] d by simp
  from 1 2 show ?thesis by simp
qed

section \<open>The raw-text fallback\<close>

text \<open>
  C8.  The detection of the raw-text fallback is true exactly when one of the five
  patterns is found anywhere in the text, and when none is found the redaction returns
  the text as it is.
\<close>

theorem C8_raw_text_fallback:
  "detect_pii_in_raw_string s =
     (found_anywhere phone_pattern s \<or> found_anywhere aadhar_pattern s
      \<or> found_anywhere passport_pattern s \<or> found_anywhere upi_pattern s
      \<or> found_anywhere email_pattern s)
   \<and> (\<not> detect_pii_in_raw_string s \<longrightarrow> redact_pii_in_raw_string s = s)"
proof -
  have 1: "detect_pii_in_raw_string s =
     (found_anywhere phone_pattern s \<or> found_anywhere aadhar_pattern s
      \<or> found_anywhere passport_pattern s \<or> found_anywhere upi_pattern s
      \<or> found_anywhere email_pattern s)"
    unfolding detect_pii_in_raw_string_def re_search_iff by auto
  have detect_iff: "detect_pii_in_raw_string s \<longleftrightarrow>
      re_search phone_pattern s \<noteq> None \<or> re_search aadhar_pattern s \<noteq> None
      \<or> re_search passport_pattern s \<noteq> None \<or> re_search upi_pattern s \<noteq> None
      \<or> re_search email_pattern s \<noteq> None"
    unfolding detect_pii_in_raw_string_def by (simp only: if_P if_not_P split: if_splits) blast
  have 2: "redact_pii_in_raw_string s = s" if "\<not> detect_pii_in_raw_string s"
  proof -
    from that have n: "re_search phone_pattern s = None" "re_search aadhar_pattern s = None"
      "re_search passport_pattern s = None" "re_search upi_pattern s = None"
      "re_search email_pattern s = None"
      using detect_iff by blast+
    show ?thesis
      unfolding redact_pii_in_raw_string_def Let_def
      by (simp add: re_finditer_no_match[OF n(1)] re_finditer_no_match[OF n(2)]
          re_sub_no_match[OF n(3)] re_sub_no_match[OF n(4)] re_sub_no_match[OF n(5)])
  qed
  from 1 2 show ?thesis by blast
qed

theorem C8_raw_text_fallback_witness:
  "\<not> detect_pii_in_raw_string ''{order: 42, shipped}''
   \<and> redact_pii_in_raw_string ''{order: 42, shipped}'' = ''{order: 42, shipped}''
   \<and> detect_pii_in_raw_string ''{phone: 9876543210''"
proof -
  have a: "\<not> detect_pii_in_raw_string ''{order: 42, shipped}''" by code_simp
  have b: "detect_pii_in_raw_string ''{phone: 9876543210''" by code_simp
  from C8_raw_text_fallback[of "''{order: 42, shipped}''"] a
  have "redact_pii_in_raw_string ''{order: 42, shipped}'' = ''{order: 42, shipped}''" by blast
  with a b show ?thesis by simp
qed

end
